theory Spec2Isabelle
  imports Complex_Main "HOL-Library.Word" "HOL-Library.Multiset"
begin

unbundle bit_operations_syntax

section \<open>Data model of TileMgr.cpp\<close>

subsection \<open>Texture fields\<close>

text \<open>
  The fields \<open>tex\<close> and \<open>ltex\<close> of a tile descriptor have the pointer type
  \<open>LPDIRECT3DTEXTURE9\<close>. The source writes them in two ways: with a pointer that came
  from the device (or \<open>NULL\<close>), and with a \<open>DWORD\<close> archive index cast to the pointer
  type (\<open>(LPDIRECT3DTEXTURE9)t.sidx\<close>). The model keeps the written 32-bit value and
  records, in the constructor, which kind of write produced it. Every test and every read
  of the source (\<open>tile->tex\<close>, \<open>subtile->tex != NULL\<close>, \<open>(DWORD)td->tex\<close>) sees the bits
  only, so the model reads the field through \<open>raw\<close> wherever the source reads it.
\<close>

datatype TEXREF =
    TexPtr "32 word"   \<comment> \<open>a texture pointer handed out by the device, or \<open>NULL\<close> (0)\<close>
  | TexIdx "32 word"   \<comment> \<open>an archive index or offset stored by a cast\<close>

fun raw :: "TEXREF \<Rightarrow> 32 word" where
  "raw (TexPtr p) = p"
| "raw (TexIdx n) = n"

abbreviation NULLTEX :: TEXREF where
  "NULLTEX \<equiv> TexPtr 0"

definition NOTILE :: "32 word" where
  "NOTILE = -1"

fun is_index :: "TEXREF \<Rightarrow> bool" where
  "is_index (TexIdx n) = True"
| "is_index (TexPtr p) = False"

subsection \<open>Tile descriptors\<close>

text \<open>
  Modelled from the spec: \<open>struct TILEDESC\<close> is declared in TileMgr.h, which is not among
  the sources. The fields are those the code uses (\<open>flag\<close>, \<open>tex\<close>, \<open>ltex\<close>,
  \<open>subtile[4]\<close>, \<open>ofs\<close>); \<open>flag\<close> is eight bits wide as in the data model of the
  specification. A parent owns its subtiles, so the quadtree is a datatype; \<open>ofs\<close>, the
  slot of the descriptor in the pool of the tile buffer, is a natural number.
\<close>

datatype TILEDESC =
  TILEDESC (flag: "8 word") (tex: TEXREF) (ltex: TEXREF)
           (subtile: "TILEDESC option list") (ofs: nat)

text \<open>\<open>new TILEDESC\<close> followed by \<open>memset (td, 0, sizeof(TILEDESC))\<close>.\<close>

definition zero_TILEDESC :: TILEDESC where
  "zero_TILEDESC = TILEDESC 0 NULLTEX NULLTEX (replicate 4 None) 0"

subsection \<open>The tile buffer: descriptor pool and request queue\<close>

text \<open>
  A pointer to a pooled descriptor is represented by the slot that holds it: \<open>AddTile\<close>
  stores the pointer in \<open>buf[last]\<close> and \<open>last\<close> in \<open>td->ofs\<close>, so one determines the
  other while the descriptor is alive.
\<close>

type_synonym tileptr = nat

record QUEUEDESC =
  name :: string
  td :: tileptr

text \<open>
  \<open>buf\<close> is the array of descriptor pointers; the code only tests its entries against
  0 and overwrites them, so an entry is \<open>True\<close> when the slot holds a pointer. The queue
  counters \<open>nqueue\<close>, \<open>queue_in\<close>, \<open>queue_out\<close> are \<open>int\<close> in the source and never
  negative: they start at 0, \<open>nqueue\<close> is decremented only after \<open>nqueue > 0\<close> was
  seen, the other two are reduced modulo \<open>MAXQUEUE\<close>. \<open>MAXQUEUE\<close> is defined in
  TileMgr.h, which is not among the sources: it is a parameter of the functions using it.
\<close>

record TileBuffer =
  nbuf :: nat
  nused :: nat
  last :: nat
  buf :: "bool list"
  nqueue :: nat
  queue_in :: nat
  queue_out :: nat
  loadqueue :: "QUEUEDESC list"

section \<open>TileBuffer::LoadTileAsync\<close>

text \<open>
  The scan \<open>for (i = 0; i < nqueue; i++) { j = (i+queue_out) % MAXQUEUE;
  if (loadqueue[j].td == tile) { ok = false; break; } }\<close>.
\<close>

definition request_present :: "nat \<Rightarrow> TileBuffer \<Rightarrow> tileptr \<Rightarrow> bool" where
  "request_present MAXQUEUE tb tile =
     list_ex (\<lambda>i. td (loadqueue tb ! ((i + queue_out tb) mod MAXQUEUE)) = tile)
             [0..<nqueue tb]"

definition LoadTileAsync :: "nat \<Rightarrow> string \<Rightarrow> tileptr \<Rightarrow> TileBuffer \<Rightarrow> bool \<times> TileBuffer" where
  "LoadTileAsync MAXQUEUE nm tile tb =
     (let ok = (if nqueue tb = MAXQUEUE then False
                else \<not> request_present MAXQUEUE tb tile)
      in if ok
         then (True, tb\<lparr>loadqueue := (loadqueue tb)[queue_in tb := \<lparr>name = nm, td = tile\<rparr>],
                        nqueue := nqueue tb + 1,
                        queue_in := (queue_in tb + 1) mod MAXQUEUE\<rparr>)
         else (False, tb))"

text \<open>
  The requests waiting in the ring buffer, oldest first: the \<open>nqueue\<close> entries starting at
  \<open>queue_out\<close>. The ring is well formed when the write position \<open>queue_in\<close> is
  \<open>nqueue\<close> places after \<open>queue_out\<close>, which the constructor establishes and both the
  enqueue and the loader's dequeue keep.
\<close>

definition queue_contents :: "nat \<Rightarrow> TileBuffer \<Rightarrow> QUEUEDESC list" where
  "queue_contents MAXQUEUE tb =
     map (\<lambda>i. loadqueue tb ! ((i + queue_out tb) mod MAXQUEUE)) [0..<nqueue tb]"

definition queue_ok :: "nat \<Rightarrow> TileBuffer \<Rightarrow> bool" where
  "queue_ok MAXQUEUE tb =
     (0 < MAXQUEUE \<and> length (loadqueue tb) = MAXQUEUE \<and> nqueue tb \<le> MAXQUEUE \<and>
      queue_out tb < MAXQUEUE \<and> queue_in tb = (queue_out tb + nqueue tb) mod MAXQUEUE)"

section \<open>The rate limit of TileManager::Render\<close>

definition SURF_MAX_PATCHLEVEL :: int where
  "SURF_MAX_PATCHLEVEL = 14"

text \<open>
  \<open>double cstep = acos (dotp (RenderParam.cdir, pcdir))\<close> is a double: a number, or
  NaN when rounding has put the product of the two unit vectors outside \<open>[-1, 1]\<close>.
  Every double that is a number is a real, and a comparison with NaN is false.
\<close>

datatype cangle = Angle real | NaN

fun exceeds :: "cangle \<Rightarrow> real \<Rightarrow> bool" where
  "exceeds (Angle c) l = (l < c)"
| "exceeds NaN l = False"

text \<open>
  \<open>static double limitstep0 = 5.12 * pow(2.0, -(double)SURF_MAX_PATCHLEVEL)\<close>, with
  \<open>SURF_MAX_PATCHLEVEL = 14\<close>. The literal \<open>5.12\<close> is the double
  \<open>0x1.47ae147ae147bp+2 = 5764607523034235 / 2 ^ 50\<close>, a little above the real number
  5.12; \<open>pow(2.0, -14.0)\<close> is the power of two itself, and a product with a power of two
  is exact. So \<open>limitstep0\<close> is the double \<open>0x1.47ae147ae147bp-12\<close>, which is the
  number below. Doubling it nine times stays exact as well.
\<close>

definition limitstep0 :: real where
  "limitstep0 = 5764607523034235 / 2 ^ 64"

text \<open>
  \<open>for (limitstep = limitstep0; cstep > limitstep && maxlevel > 5; limitstep *= 2.0)
  maxlevel--;\<close>
\<close>

function limit_loop :: "cangle \<Rightarrow> real \<Rightarrow> int \<Rightarrow> int" where
  "limit_loop cstep limitstep maxlevel =
     (if exceeds cstep limitstep \<and> maxlevel > 5
      then limit_loop cstep (limitstep * 2.0) (maxlevel - 1)
      else maxlevel)"
  by pat_completeness auto
termination
  by (relation "measure (\<lambda>(cstep, limitstep, maxlevel). nat (maxlevel - 5))") auto

declare limit_loop.simps [simp del]

text \<open>The value of \<open>maxlevel\<close> after the loop, which starts with \<open>SURF_MAX_PATCHLEVEL\<close>.\<close>

definition maxlevel_of :: "cangle \<Rightarrow> int" where
  "maxlevel_of cstep = limit_loop cstep limitstep0 SURF_MAX_PATCHLEVEL"

text \<open>
  The level that \<open>Render\<close> stores in \<open>RenderParam.tgtlvl\<close>, from its argument \<open>level\<close>
  and the member \<open>maxlvl\<close>: \<open>level = min (level, maxlvl)\<close> at the start of the function,
  then the loop, then \<open>level = min (level, maxlevel); RenderParam.tgtlvl = level\<close>.
\<close>

definition Render_tgtlvl :: "int \<Rightarrow> int \<Rightarrow> cangle \<Rightarrow> int" where
  "Render_tgtlvl maxlvl level0 cstep =
     (let level = min level0 maxlvl;
          maxlevel = limit_loop cstep limitstep0 SURF_MAX_PATCHLEVEL;
          level = min level maxlevel
      in level)"

section \<open>The descriptor pool: AddTile, DeleteTile, DeleteSubTiles\<close>

text \<open>
  The search of \<open>AddTile\<close> for a free slot,
  \<open>for (i = 0; i < nbuf; i++) { j = (i+last)%nbuf; if (!buf[j]) { last = j; break; } }\<close>:
  the first \<open>j\<close> in the rotated order whose slot is empty, if there is one.
\<close>

definition find_free :: "TileBuffer \<Rightarrow> nat option" where
  "find_free tb =
     find (\<lambda>j. \<not> buf tb ! j) (map (\<lambda>i. (i + last tb) mod nbuf tb) [0..<nbuf tb])"

text \<open>
  \<open>AddTile\<close>. When the pool is full it grows by 16 empty slots (the first \<open>nbuf\<close>
  pointers are copied) and \<open>last\<close> becomes the first new slot; otherwise \<open>last\<close> becomes
  the free slot found, and stays as it is when none is found (the source's empty
  \<open>/* Problems! */\<close> branch). Then \<open>buf[last] = td; td->ofs = last; nused++\<close>.
\<close>

definition AddTile :: "TileBuffer \<Rightarrow> TILEDESC \<times> TileBuffer" where
  "AddTile tb =
     (let tb1 = (if nused tb = nbuf tb
                 then tb\<lparr>buf := take (nbuf tb) (buf tb) @ replicate 16 False,
                         nbuf := nbuf tb + 16, last := nused tb\<rparr>
                 else (case find_free tb of Some j \<Rightarrow> tb\<lparr>last := j\<rparr> | None \<Rightarrow> tb))
      in (TILEDESC (flag zero_TILEDESC) (tex zero_TILEDESC) (ltex zero_TILEDESC)
                   (subtile zero_TILEDESC) (last tb1),
          tb1\<lparr>buf := (buf tb1)[last tb1 := True], nused := nused tb1 + 1\<rparr>))"

text \<open>
  \<open>DeleteTile\<close> returns the source's \<open>bool\<close>, what is left of the descriptor
  (\<open>None\<close> after \<open>delete tile\<close>; otherwise the descriptor with the subtile pointers the
  loop has zeroed) and the pool. \<open>DeleteTile_loop\<close> is its loop over \<open>subtile[i]\<close>, which
  returns the flag \<open>del\<close> with the updated pointers. \<open>nused\<close> is unsigned in the source
  and positive whenever a pooled descriptor exists.
\<close>

fun DeleteTile :: "TILEDESC \<Rightarrow> TileBuffer \<Rightarrow> bool \<times> TILEDESC option \<times> TileBuffer"
and DeleteTile_loop ::
  "TILEDESC option list \<Rightarrow> TileBuffer \<Rightarrow> bool \<times> TILEDESC option list \<times> TileBuffer"
where
  "DeleteTile (TILEDESC fl t lt subs slot) tb =
     (case DeleteTile_loop subs tb of (del, subs', tb1) \<Rightarrow>
        if raw t \<noteq> 0 \<or> \<not> del
        then (False, Some (TILEDESC fl t lt subs' slot), tb1)
        else (True, None, tb1\<lparr>buf := (buf tb1)[slot := False], nused := nused tb1 - 1\<rparr>))"
| "DeleteTile_loop [] tb = (True, [], tb)"
| "DeleteTile_loop (None # rest) tb =
     (case DeleteTile_loop rest tb of (del, rest', tb') \<Rightarrow> (del, None # rest', tb'))"
| "DeleteTile_loop (Some c # rest) tb =
     (case DeleteTile c tb of (gone, c', tb1) \<Rightarrow>
        case DeleteTile_loop rest tb1 of (del, rest', tb2) \<Rightarrow>
          if gone then (del, None # rest', tb2) else (False, c' # rest', tb2))"

text \<open>
  \<open>DeleteSubTiles\<close> runs the same loop and ignores whether every subtile went away.
\<close>

fun DeleteSubTiles :: "TILEDESC \<Rightarrow> TileBuffer \<Rightarrow> TILEDESC \<times> TileBuffer" where
  "DeleteSubTiles (TILEDESC fl t lt subs slot) tb =
     (case DeleteTile_loop subs tb of (del, subs', tb') \<Rightarrow> (TILEDESC fl t lt subs' slot, tb'))"

text \<open>The descriptors of a subtree, the root first.\<close>

fun nodes :: "TILEDESC \<Rightarrow> TILEDESC list"
and nodes_list :: "TILEDESC option list \<Rightarrow> TILEDESC list"
where
  "nodes (TILEDESC fl t lt subs slot) = TILEDESC fl t lt subs slot # nodes_list subs"
| "nodes_list [] = []"
| "nodes_list (None # rest) = nodes_list rest"
| "nodes_list (Some c # rest) = nodes c @ nodes_list rest"


section \<open>The loader thread: one iteration of LoadTile\_ThreadProc\<close>

definition TILESIZE :: "32 word" where
  "TILESIZE = 32896"

text \<open>
  \<open>ReadDDSSurface\<close> reads a file and creates a device texture. It is a parameter
  \<open>rd\<close> of the model: \<open>rd fname ofs\<close> is \<open>Some p\<close> when the call returns \<open>S_OK\<close>
  with the texture pointer \<open>p\<close>, and \<open>None\<close> for every other return value, after which
  the loader uses \<open>NULL\<close>. The offset is a \<open>long\<close>, 32 bits wide.

  \<open>load_tile\<close> is the body of the iteration for the descriptor \<open>qd.td\<close>: it computes
  \<open>tex\<close> and \<open>mask\<close> and then, under the mutex, stores them and clears the two top bits
  of \<open>flag\<close>.
\<close>

definition load_tile :: "(string \<Rightarrow> 32 word \<Rightarrow> 32 word option) \<Rightarrow> string \<Rightarrow> TILEDESC \<Rightarrow> TILEDESC" where
  "load_tile rd nm d =
     (let tidx = raw (tex d);
          tex' = (if tidx = NOTILE then NULLTEX
                  else let ofs = (if flag d AND 0x40 \<noteq> 0 then tidx * TILESIZE else tidx)
                       in case rd (nm @ ''_tile.tex'') ofs of
                            Some p \<Rightarrow> TexPtr p | None \<Rightarrow> NULLTEX);
          mask = (if flag d AND 3 = 3 \<or> flag d AND 4 \<noteq> 0
                  then let midx = raw (ltex d)
                       in if midx = - 1 then NULLTEX
                          else let ofs = (if flag d AND 0x40 \<noteq> 0 then midx * TILESIZE
                                          else midx)
                               in case rd (nm @ ''_tile_lmask.tex'') ofs of
                                    Some p \<Rightarrow> TexPtr p | None \<Rightarrow> NULLTEX
                  else NULLTEX)
      in TILEDESC (flag d AND 0x3F) tex' mask (subtile d) (ofs d))"

text \<open>
  The pool after the slots in \<open>S\<close> have been zeroed (\<open>buf[tile->ofs] = 0\<close> for each of
  them): every other entry is as before.
\<close>

definition free_slots :: "nat set \<Rightarrow> bool list \<Rightarrow> bool list" where
  "free_slots S b = map (\<lambda>j. b ! j \<and> j \<notin> S) [0..<length b]"

text \<open>
  A descriptor holds a loaded texture when its \<open>tex\<close> field is a texture pointer other
  than \<open>NULL\<close>; an archive index, resolved or not, is not a texture.
\<close>

fun loaded_texture :: "TEXREF \<Rightarrow> bool" where
  "loaded_texture (TexPtr p) = (p \<noteq> 0)"
| "loaded_texture (TexIdx n) = False"

definition no_loaded_texture :: "TILEDESC \<Rightarrow> bool" where
  "no_loaded_texture d = list_all (\<lambda>n. \<not> loaded_texture (tex n)) (nodes d)"

definition all_tex_null :: "TILEDESC \<Rightarrow> bool" where
  "all_tex_null d = list_all (\<lambda>n. raw (tex n) = 0) (nodes d)"

section \<open>The traversal: TileManager::ProcessTile\<close>

text \<open>
  Texture coordinates are \<open>float\<close> in the source and reals here; the traversal only
  halves ranges that start at \<open>{0,1,0,1}\<close>, which a float does exactly.
\<close>

record TEXCRDRANGE =
  tumin :: real
  tumax :: real
  tvmin :: real
  tvmax :: real

definition fullrange :: TEXCRDRANGE where
  "fullrange = \<lparr>tumin = 0, tumax = 1, tvmin = 0, tvmax = 1\<rparr>"

text \<open>
  \<open>du = (range.tumax-range.tumin) * 0.5f; dv = (range.tvmax-range.tvmin) * 0.5f;
  subrange.tvmax = (subrange.tvmin = range.tvmin + (1-i)*dv) + dv;
  subrange.tumax = (subrange.tumin = range.tumin + j*du) + du;\<close>
\<close>

definition subrange_of :: "TEXCRDRANGE \<Rightarrow> int \<Rightarrow> int \<Rightarrow> TEXCRDRANGE" where
  "subrange_of rng i j =
     (let du = (tumax rng - tumin rng) * 0.5;
          dv = (tvmax rng - tvmin rng) * 0.5;
          vmin = tvmin rng + real_of_int (1 - i) * dv;
          umin = tumin rng + real_of_int j * du
      in \<lparr>tumin = umin, tumax = umin + du, tvmin = vmin, tvmax = vmin + dv\<rparr>)"

text \<open>
  The four arguments \<open>range, tex, ltex, flag\<close> that \<open>ProcessTile\<close> and \<open>RenderTile\<close>
  take for a texture, once as the current and once as the backup set; \<open>flag\<close> is a
  \<open>DWORD\<close> there.
\<close>

type_synonym texargs = "TEXCRDRANGE \<times> TEXREF \<times> TEXREF \<times> 32 word"

text \<open>\<open>tile->subtile[idx] = subtile\<close> on the datatype.\<close>

fun set_subtile :: "TILEDESC \<Rightarrow> nat \<Rightarrow> TILEDESC option \<Rightarrow> TILEDESC" where
  "set_subtile (TILEDESC fl t lt subs slot) idx c = TILEDESC fl t lt (subs[idx := c]) slot"

text \<open>
  The body of the loop over the four children, up to the recursive call: it returns the
  child descriptor (the existing one, or the one \<open>AddTile\<close> has just made and stored in
  \<open>tile->subtile[idx]\<close>), the tile buffer after \<open>AddTile\<close> or \<open>LoadTileAsync\<close>, and the
  current and the backup texture arguments of the recursive \<open>ProcessTile\<close> call.
  \<open>crange\<close>, \<open>ctex\<close>, \<open>cltex\<close>, \<open>cflag\<close> are the parameters \<open>range\<close>, \<open>tex\<close>,
  \<open>ltex\<close>, \<open>flag\<close> of the running call.
\<close>

definition descend ::
  "nat \<Rightarrow> string \<Rightarrow> TILEDESC \<Rightarrow> nat \<Rightarrow> TEXCRDRANGE \<Rightarrow> texargs \<Rightarrow> TileBuffer
     \<Rightarrow> TILEDESC \<times> TileBuffer \<times> texargs \<times> texargs" where
  "descend MAXQUEUE nm tile idx subrange cur tb =
     (case cur of (crange, ctex, cltex, cflag) \<Rightarrow>
      case (case subtile tile ! idx of
              None \<Rightarrow> (case AddTile tb of (new, tb1) \<Rightarrow> (new, tb1, False))
            | Some st \<Rightarrow>
                if flag st AND 0x80 \<noteq> 0
                then (st,
                      if flag tile AND 0x80 = 0
                      then snd (LoadTileAsync MAXQUEUE nm (ofs st) tb) else tb,
                      False)
                else (st, tb, True))
      of (st, tb1, isfull0) \<Rightarrow>
        let isfull = (if isfull0 then raw (tex st) \<noteq> 0 else False)
        in if isfull
           then (st, tb1, (fullrange, tex st, ltex st, ucast (flag st)),
                          (subrange, ctex, cltex, cflag))
           else (st, tb1, (subrange, ctex, cltex, cflag),
                          (subrange, ctex, cltex, cflag)))"

text \<open>
  The position arguments \<open>lvl, hemisp, ilat, nlat, ilng, nlng\<close> of a call.
\<close>

type_synonym tilepos = "int \<times> int \<times> int \<times> int \<times> int \<times> int"

text \<open>
  The geometry of a frame. The visibility tests of \<open>ProcessTile\<close> are floating point
  computations on the camera and the tile position; the model takes their outcomes as
  functions of the position: \<open>offview\<close> is \<open>adist >= RenderParam.viewap\<close>, \<open>inview\<close>
  is \<open>IsTileInView\<close>, \<open>oblique\<close> is \<open>adist > 0.0\<close> together with
  \<open>adist2 > rad*(2.0*ctilt+0.3)\<close>, \<open>coarse\<close> is \<open>adist2 > rad*(4.2*ctilt+0.3)\<close>,
  and \<open>hidden\<close> is the horizon and camera test before \<open>RenderTile\<close>. \<open>tgtlvl\<close> is
  \<open>RenderParam.tgtlvl\<close>.
\<close>

record frame =
  tgtlvl :: int
  offview :: "tilepos \<Rightarrow> bool"
  inview :: "tilepos \<Rightarrow> bool"
  oblique :: "tilepos \<Rightarrow> bool"
  coarse :: "tilepos \<Rightarrow> bool"
  hidden :: "tilepos \<Rightarrow> bool"

text \<open>
  \<open>ProcessTile\<close> returns the descriptor after the changes below it, the tile buffer and
  the \<open>RenderTile\<close> calls it made, each with its position and texture arguments.
  \<open>ProcessTile_sub\<close> is the loop over the children from \<open>idx\<close> on; its counters are
  \<open>i = 1 - idx div 2\<close> and \<open>j = idx mod 2\<close>.
\<close>

function ProcessTile ::
  "nat \<Rightarrow> string \<Rightarrow> frame \<Rightarrow> tilepos \<Rightarrow> TILEDESC \<Rightarrow> texargs \<Rightarrow> texargs \<Rightarrow> TileBuffer
     \<Rightarrow> TILEDESC \<times> TileBuffer \<times> (tilepos \<times> texargs) list"
and ProcessTile_sub ::
  "nat \<Rightarrow> string \<Rightarrow> frame \<Rightarrow> tilepos \<Rightarrow> TILEDESC \<Rightarrow> texargs \<Rightarrow> nat \<Rightarrow> TileBuffer
     \<Rightarrow> TILEDESC \<times> TileBuffer \<times> (tilepos \<times> texargs) list"
where
  "ProcessTile MAXQUEUE nm fr (lvl, hemisp, ilat, nlat, ilng, nlng) tile cur bkp tb =
     (let pos = (lvl, hemisp, ilat, nlat, ilng, nlng) in
      if offview fr pos then (tile, tb, [])
      else if \<not> inview fr pos
      then (case DeleteSubTiles tile tb of (tile', tb') \<Rightarrow> (tile', tb', []))
      else
        let reduce = (lvl < tgtlvl fr \<and> lvl \<ge> 8 \<and> oblique fr pos);
            bStepDown = (lvl < tgtlvl fr \<and> \<not> reduce);
            bCoarseTex = (reduce \<and> coarse fr pos)
        in if bStepDown then ProcessTile_sub MAXQUEUE nm fr pos tile cur 0 tb
           else if hidden fr pos then (tile, tb, [])
           else (tile, tb, [(pos, if bCoarseTex then bkp else cur)]))"
| "ProcessTile_sub MAXQUEUE nm fr (lvl, hemisp, ilat, nlat, ilng, nlng) tile cur idx tb =
     (if idx < 4 \<and> lvl < tgtlvl fr
      then
        let i = 1 - int (idx div 2); j = int (idx mod 2);
            subrange = subrange_of (fst cur) i j
        in case descend MAXQUEUE nm tile idx subrange cur tb of
             (st, tb1, cur', bkp') \<Rightarrow>
          case ProcessTile MAXQUEUE nm fr
                 (lvl + 1, hemisp, ilat * 2 + i, nlat * 2, ilng * 2 + j, nlng * 2)
                 st cur' bkp' tb1 of
             (st', tb2, draws) \<Rightarrow>
          case ProcessTile_sub MAXQUEUE nm fr (lvl, hemisp, ilat, nlat, ilng, nlng)
                 (set_subtile tile idx (Some st')) cur (idx + 1) tb2 of
             (tile', tb3, draws') \<Rightarrow> (tile', tb3, draws @ draws')
      else (tile, tb, []))"
  by pat_completeness auto
termination
  by (relation "measures
        [\<lambda>x. case x of
               Inl (M, nm, fr, (lvl, r), tile, cur, bkp, tb) \<Rightarrow> nat (tgtlvl fr - lvl)
             | Inr (M, nm, fr, (lvl, r), tile, cur, idx, tb) \<Rightarrow> nat (tgtlvl fr - lvl),
         \<lambda>x. case x of
               Inl (M, nm, fr, (lvl, r), tile, cur, bkp, tb) \<Rightarrow> 5
             | Inr (M, nm, fr, (lvl, r), tile, cur, idx, tb) \<Rightarrow> 4 - idx]")
     auto

declare ProcessTile.simps [simp del]
declare ProcessTile_sub.simps [simp del]

section \<open>The catalogue: TileManager::LoadPatchData\<close>

definition patchidx :: "nat list" where
  "patchidx = [0, 1, 2, 3, 5, 13, 37, 137, 501]"

text \<open>
  The source checks neither the result of \<open>fread\<close> nor its array indices. Where a read
  runs past the end of the file a local keeps an indeterminate value, and where an index
  leaves its array the behaviour is undefined; the model stops with a fault there instead
  of inventing a value.
\<close>

datatype fault = ShortRead | OutOfBounds

fun set_flag :: "TILEDESC \<Rightarrow> 8 word \<Rightarrow> TILEDESC" where
  "set_flag (TILEDESC fl t lt subs slot) f = TILEDESC f t lt subs slot"

text \<open>The identifier \<open>"PLTA0100"\<close> of the v1.00 format, as bytes.\<close>

definition PLTA0100 :: "8 word list" where
  "PLTA0100 = [0x50, 0x4C, 0x54, 0x41, 0x30, 0x31, 0x30, 0x30]"

text \<open>
  The table \<open>tflag\<close> with \<open>minres\<close> and \<open>maxres\<close>, read from the file.

  Modelled from the spec: \<open>LMASKFILEHEADER\<close> is declared in a header that is not among
  the sources; its layout is the one the specification gives for the v1.00 framing, the
  8-byte identifier followed by \<open>minres\<close>, \<open>maxres\<close> (one byte each) and \<open>npatch\<close>
  (16 bits, little endian), and then \<open>npatch\<close> little-endian 16-bit flags.

  The pre-v1.00 branch is in the source: after \<open>fseek (binf, 0, SEEK_SET)\<close> it reads
  \<open>minres\<close>, \<open>maxres\<close> and then \<open>npatch = patchidx[maxres] - patchidx[minres-1]\<close>
  flags of one byte each.
\<close>

definition read_lmask :: "8 word list \<Rightarrow> fault + (nat \<times> nat \<times> 16 word list)" where
  "read_lmask f =
     (if length f < 8 then Inl ShortRead
      else if take 8 f = PLTA0100
      then (if length f < 12 then Inl ShortRead
            else let minres = unat (f ! 8); maxres = unat (f ! 9);
                     npatch = unat (f ! 10) + 256 * unat (f ! 11)
                 in if length f < 12 + 2 * npatch then Inl ShortRead
                    else Inr (minres, maxres,
                              map (\<lambda>i. ucast (f ! (12 + 2 * i))
                                        + 256 * ucast (f ! (13 + 2 * i))) [0..<npatch]))
      else let minres = unat (f ! 0); maxres = unat (f ! 1)
           in if minres = 0 \<or> length patchidx \<le> minres - 1 \<or> length patchidx \<le> maxres
                 \<or> patchidx ! maxres < patchidx ! (minres - 1)
              then Inl OutOfBounds
              else let npatch = patchidx ! maxres - patchidx ! (minres - 1)
                   in if length f < 2 + npatch then Inl ShortRead
                      else Inr (minres, maxres, map (\<lambda>i. ucast (f ! (2 + i))) [0..<npatch]))"

text \<open>
  The loop \<open>for (i = idx = 0; i < patchidx[maxbaselvl]; i++)\<close> from \<open>i\<close> on, with
  \<open>n = patchidx[maxbaselvl]\<close> and \<open>lo = patchidx[minres-1]\<close>.
\<close>

function patch_loop ::
  "nat \<Rightarrow> nat \<Rightarrow> 16 word list \<Rightarrow> nat \<Rightarrow> nat \<Rightarrow> TILEDESC list \<Rightarrow> nat
     \<Rightarrow> fault + (TILEDESC list \<times> nat)" where
  "patch_loop n lo tflag i idx tiledesc nmask =
     (if i < n
      then if length tiledesc \<le> i then Inl OutOfBounds
           else if i < lo
           then patch_loop n lo tflag (i + 1) idx
                  (tiledesc[i := set_flag (tiledesc ! i) 1]) nmask
           else if length tflag \<le> idx then Inl OutOfBounds
           else let fl = (ucast (tflag ! idx) :: 8 word)
                in patch_loop n lo tflag (i + 1) (idx + 1)
                     (tiledesc[i := set_flag (tiledesc ! i) fl])
                     (if fl AND 3 = 3 \<or> fl AND 4 \<noteq> 0 then nmask + 1 else nmask)
      else Inr (tiledesc, nmask))"
  by pat_completeness auto
termination
  by (relation "measure (\<lambda>(n, lo, tflag, i, idx, tiledesc, nmask). n - i)") auto

declare patch_loop.simps [simp del]

text \<open>
  \<open>LoadPatchData\<close>. \<open>masks\<close> is \<open>bGlobalSpecular || bGlobalLights\<close>; \<open>file\<close> is the
  content of \<open><name>_lmask.bin\<close>, or \<open>None\<close> when the path is not found or the file
  cannot be opened. The result is the returned \<open>bool\<close>, the array \<open>tiledesc\<close> and
  \<open>nmask\<close>. Without a file every flag becomes 1, which is the loop above with
  \<open>lo = n\<close> and no table.
\<close>

definition LoadPatchData ::
  "bool \<Rightarrow> 8 word list option \<Rightarrow> nat \<Rightarrow> TILEDESC list
     \<Rightarrow> fault + (bool \<times> TILEDESC list \<times> nat)" where
  "LoadPatchData masks file maxbaselvl tiledesc =
     (if length patchidx \<le> maxbaselvl then Inl OutOfBounds
      else let n = patchidx ! maxbaselvl in
        case (if masks then file else None) of
          None \<Rightarrow>
            (case patch_loop n n [] 0 0 tiledesc 0 of
               Inl e \<Rightarrow> Inl e
             | Inr (tiledesc', nmask) \<Rightarrow> Inr (False, tiledesc', 0))
        | Some f \<Rightarrow>
            (case read_lmask f of
               Inl e \<Rightarrow> Inl e
             | Inr (minres, maxres, tflag) \<Rightarrow>
                 if minres = 0 \<or> length patchidx \<le> minres - 1 then Inl OutOfBounds
                 else case patch_loop n (patchidx ! (minres - 1)) tflag 0 0 tiledesc 0 of
                        Inl e \<Rightarrow> Inl e
                      | Inr (tiledesc', nmask) \<Rightarrow> Inr (True, tiledesc', nmask)))"

text \<open>The flags of the base tiles after a call that ran to its end.\<close>

definition tile_flags :: "fault + (bool \<times> TILEDESC list \<times> nat) \<Rightarrow> 8 word list option" where
  "tile_flags r = (case r of Inl e \<Rightarrow> None | Inr (ok, tiledesc, nmask) \<Rightarrow> Some (map flag tiledesc))"

section \<open>The catalogue: TileManager::LoadTileData\<close>

text \<open>
  Modelled from the spec: \<open>struct TILEFILESPEC\<close> is declared in a header that is not
  among the sources. The fields are those of the records of the table of contents in the
  specification: \<open>{sidx: u32, midx: u32, flags: u16, subidx[4]: u32}\<close>.
\<close>

record TILEFILESPEC =
  sidx :: "32 word"
  midx :: "32 word"
  flags :: "16 word"
  subidx :: "32 word list"

text \<open>
  \<open>struct IDXLIST { DWORD idx, ofs; }\<close> as the pair \<open>(idx, ofs)\<close>; \<open>idx\<close> is only
  used as a position in \<open>tfs\<close>.
\<close>

type_synonym IDXLIST = "nat \<times> 32 word"

definition compare_idx :: "IDXLIST \<Rightarrow> IDXLIST \<Rightarrow> int" where
  "compare_idx el1 el2 = (if snd el1 < snd el2 then - 1 else if snd el1 > snd el2 then 1 else 0)"

text \<open>
  \<open>qsort\<close> is a library function: it returns the elements it was given, ordered by the
  comparison function, in an order it does not specify for elements that compare equal.
  The conversion takes the sorting function as a parameter \<open>qs\<close>, and \<open>qsort_contract\<close>
  says what can be assumed of it.
\<close>

definition qsort_contract :: "(IDXLIST list \<Rightarrow> IDXLIST list) \<Rightarrow> bool" where
  "qsort_contract qs =
     (\<forall>xs. mset (qs xs) = mset xs \<and> sorted_wrt (\<lambda>a b. compare_idx a b \<le> 0) (qs xs))"

text \<open>
  The loop \<open>for (i = 0; i < n && idxlist[i].ofs != NOTILE; i++) tfs[idxlist[i].idx].sidx = i;\<close>
  and its twin for \<open>midx\<close>: the list is \<open>idxlist\<close> from position \<open>i\<close> on, and \<open>upd\<close>
  writes the field.
\<close>

fun assign_loop ::
  "(32 word \<Rightarrow> TILEFILESPEC \<Rightarrow> TILEFILESPEC) \<Rightarrow> IDXLIST list \<Rightarrow> nat \<Rightarrow> TILEFILESPEC list
     \<Rightarrow> TILEFILESPEC list" where
  "assign_loop upd [] i tfs = tfs"
| "assign_loop upd (e # rest) i tfs =
     (if snd e \<noteq> NOTILE
      then assign_loop upd rest (i + 1) (tfs[fst e := upd (of_nat i) (tfs ! fst e)])
      else tfs)"

text \<open>The block \<open>if (tilever >= 1) { ... }\<close>: offsets become indices, first \<open>sidx\<close>, then \<open>midx\<close>.\<close>

definition convert_offsets ::
  "(IDXLIST list \<Rightarrow> IDXLIST list) \<Rightarrow> TILEFILESPEC list \<Rightarrow> TILEFILESPEC list" where
  "convert_offsets qs tfs =
     (let n = length tfs;
          idxlist = qs (map (\<lambda>i. (i, sidx (tfs ! i))) [0..<n]);
          tfs1 = assign_loop (\<lambda>v r. r\<lparr>sidx := v\<rparr>) idxlist 0 tfs;
          idxlist' = qs (map (\<lambda>i. (i, midx (tfs1 ! i))) [0..<n]);
          tfs2 = assign_loop (\<lambda>v r. r\<lparr>midx := v\<rparr>) idxlist' 0 tfs1
      in tfs2)"

text \<open>
  The part of \<open>LoadTileData\<close> between reading the table and building the tree: the table
  and \<open>tilever\<close> afterwards.
\<close>

definition LoadTileData_convert ::
  "bool \<Rightarrow> nat \<Rightarrow> (IDXLIST list \<Rightarrow> IDXLIST list) \<Rightarrow> TILEFILESPEC list
     \<Rightarrow> TILEFILESPEC list \<times> nat" where
  "LoadTileData_convert bPreloadTile tilever qs tfs =
     (if bPreloadTile \<and> tilever \<ge> 1 then (convert_offsets qs tfs, 0) else (tfs, tilever))"

text \<open>The indices in a column of the table that are not \<open>NOTILE\<close>.\<close>

definition real_indices :: "32 word list \<Rightarrow> 32 word list" where
  "real_indices col = filter (\<lambda>v. v \<noteq> NOTILE) col"

section \<open>Patch templates: TileManager::CreateSpherePatch\<close>

text \<open>
  The model keeps what the claims about the mesh need: the sizes \<open>nVtx\<close> and \<open>nIdx\<close> of
  the two arrays, the sequence of writes to \<open>Vtx\<close> and the content of \<open>Idx\<close>. A vertex is
  written at \<open>Vtx[n]\<close> with \<open>n\<close> counting up from 0, and an index at \<open>Idx[n++]\<close>, so
  each array is the list of its writes in order: the \<open>k\<close>-th write goes to position
  \<open>k\<close>, and the writes stay inside the array exactly when the list is no longer than the
  array. The coordinates of a vertex are floating point numbers computed from its strip
  \<open>i\<close> and its position \<open>j\<close> in the strip; the model records the pair \<open>(i, j)\<close>.
\<close>

text \<open>\<open>for (j = 0; j <= nseg; j++) { ... Vtx[n] = ...; n++; }\<close>\<close>

function vtx_row :: "int \<Rightarrow> int \<Rightarrow> int \<Rightarrow> (int \<times> int) list \<Rightarrow> (int \<times> int) list" where
  "vtx_row nseg i j Vtx =
     (if j \<le> nseg then vtx_row nseg i (j + 1) (Vtx @ [(i, j)]) else Vtx)"
  by pat_completeness auto
termination
  by (relation "measure (\<lambda>(nseg, i, j, Vtx). nat (nseg + 1 - j))") auto

declare vtx_row.simps [simp del]

text \<open>\<open>for (i = n = 0; i <= res; i++) { nseg = (reduce ? bseg-i : bseg); ... }\<close>\<close>

function vtx_loop :: "int \<Rightarrow> int \<Rightarrow> bool \<Rightarrow> int \<Rightarrow> (int \<times> int) list \<Rightarrow> (int \<times> int) list" where
  "vtx_loop res bseg reduce i Vtx =
     (if i \<le> res
      then let nseg = (if reduce then bseg - i else bseg)
           in vtx_loop res bseg reduce (i + 1) (vtx_row nseg i 0 Vtx)
      else Vtx)"
  by pat_completeness auto
termination
  by (relation "measure (\<lambda>(res, bseg, reduce, i, Vtx). nat (res + 1 - i))") auto

declare vtx_loop.simps [simp del]

text \<open>
  The inner loop of the faces; an \<open>int\<close> stored in the \<open>WORD\<close> array keeps its low 16
  bits.
  \<open>for (j = 0; j < nseg; j++) { Idx[n++] = nofs0+j; Idx[n++] = nofs1+j; Idx[n++] = nofs0+j+1;
  if (reduce && j == nseg-1) break;
  Idx[n++] = nofs0+j+1; Idx[n++] = nofs1+j; Idx[n++] = nofs1+j+1; }\<close>
\<close>

function face_row :: "bool \<Rightarrow> int \<Rightarrow> int \<Rightarrow> int \<Rightarrow> int \<Rightarrow> 16 word list \<Rightarrow> 16 word list" where
  "face_row reduce nofs0 nofs1 nseg j Idx =
     (if j < nseg
      then let Idx1 = Idx @ [word_of_int (nofs0 + j), word_of_int (nofs1 + j),
                             word_of_int (nofs0 + j + 1)]
           in if reduce \<and> j = nseg - 1 then Idx1
              else face_row reduce nofs0 nofs1 nseg (j + 1)
                     (Idx1 @ [word_of_int (nofs0 + j + 1), word_of_int (nofs1 + j),
                              word_of_int (nofs1 + j + 1)])
      else Idx)"
  by pat_completeness auto
termination
  by (relation "measure (\<lambda>(reduce, nofs0, nofs1, nseg, j, Idx). nat (nseg - j))") auto

declare face_row.simps [simp del]

text \<open>
  \<open>for (i = n = nofs0 = 0; i < res; i++) { nseg = (reduce ? bseg-i : bseg);
  nofs1 = nofs0+nseg+1; ...; nofs0 = nofs1; }\<close>
\<close>

function face_loop :: "int \<Rightarrow> int \<Rightarrow> bool \<Rightarrow> int \<Rightarrow> int \<Rightarrow> 16 word list \<Rightarrow> 16 word list" where
  "face_loop res bseg reduce i nofs0 Idx =
     (if i < res
      then let nseg = (if reduce then bseg - i else bseg);
               nofs1 = nofs0 + nseg + 1
           in face_loop res bseg reduce (i + 1) nofs1 (face_row reduce nofs0 nofs1 nseg 0 Idx)
      else Idx)"
  by pat_completeness auto
termination
  by (relation "measure (\<lambda>(res, bseg, reduce, i, nofs0, Idx). nat (res - i))") auto

declare face_loop.simps [simp del]

text \<open>
  \<open>if (!outside) for (i = 0; i < nIdx/3; i += 3)
  tmp = Idx[i+1], Idx[i+1] = Idx[i+2], Idx[i+2] = tmp;\<close>
  Here the positions are computed, so the model checks them against the array.
\<close>

function swap_loop :: "int \<Rightarrow> int \<Rightarrow> 16 word list \<Rightarrow> fault + 16 word list" where
  "swap_loop nIdx i Idx =
     (if i < nIdx div 3
      then if i < 0 \<or> int (length Idx) \<le> i + 2 then Inl OutOfBounds
           else swap_loop nIdx (i + 3)
                  (Idx[nat (i + 1) := Idx ! nat (i + 2), nat (i + 2) := Idx ! nat (i + 1)])
      else Inr Idx)"
  by pat_completeness auto
termination
  by (relation "measure (\<lambda>(nIdx, i, Idx). nat (nIdx div 3 - i))") auto

declare swap_loop.simps [simp del]

record patch =
  nVtx :: int
  nIdx :: int
  Vtx :: "(int \<times> int) list"
  Idx :: "16 word list"

text \<open>
  \<open>CreateSpherePatch\<close>: the default of \<open>bseg\<close>, the two array sizes, the vertices, the
  faces and the swap for patches seen from inside. \<open>mesh.nVtx\<close> is \<open>nVtx\<close> and
  \<open>mesh.nFace\<close> is \<open>nIdx/3\<close>.
\<close>

definition effective_bseg :: "int \<Rightarrow> int \<Rightarrow> int \<Rightarrow> int \<Rightarrow> int" where
  "effective_bseg nlat ilat res bseg =
     (if bseg < 0 \<or> ilat = nlat - 1 then (nlat - ilat) * res else bseg)"

definition CreateSpherePatch ::
  "int \<Rightarrow> int \<Rightarrow> int \<Rightarrow> int \<Rightarrow> int \<Rightarrow> bool \<Rightarrow> bool \<Rightarrow> fault + patch" where
  "CreateSpherePatch nlng nlat ilat res bseg0 reduce outside =
     (let bseg = effective_bseg nlat ilat res bseg0;
          nv = (bseg + 1) * (res + 1) - (if reduce then ((res + 1) * res) div 2 else 0);
          vs = vtx_loop res bseg reduce 0 [];
          ni = (if reduce then res * (2 * bseg - res) else 2 * res * bseg) * 3;
          fs = face_loop res bseg reduce 0 0 []
      in case (if \<not> outside then swap_loop ni 0 fs else Inr fs) of
           Inl e \<Rightarrow> Inl e
         | Inr fs' \<Rightarrow> Inr \<lparr>nVtx = nv, nIdx = ni, Vtx = vs, Idx = fs'\<rparr>)"

text \<open>
  The integers of \<open>CreateSpherePatch\<close> (\<open>nlat\<close>, \<open>ilat\<close>, \<open>res\<close>, \<open>bseg\<close>, \<open>nVtx\<close>,
  \<open>nIdx\<close>, the offsets and the counters) are of type \<open>int\<close>, 32 bits wide; the model
  computes with unbounded integers, which agrees with the code as long as every value
  stays in the range of \<open>int\<close>.
\<close>

definition INT_MAX :: int where
  "INT_MAX = 2147483647"

text \<open>
  The arguments the mesh arithmetic is meant for: a latitude band inside the hemisphere,
  at least one strip, a base row that, after the default, is not negative and, for a
  reduced (triangular) patch, at least as long as the number of strips, and a patch small
  enough for its arithmetic: six times the number of grid points \<open>(bseg+1)\<cdot>(res+1)\<close>,
  which bounds every product the function forms, fits an \<open>int\<close>.
\<close>

definition valid_patch :: "int \<Rightarrow> int \<Rightarrow> int \<Rightarrow> int \<Rightarrow> bool \<Rightarrow> bool" where
  "valid_patch nlat ilat res bseg0 reduce =
     (0 \<le> ilat \<and> ilat < nlat \<and> nlat \<le> INT_MAX \<and> 1 \<le> res
      \<and> - INT_MAX - 1 \<le> bseg0 \<and> bseg0 \<le> INT_MAX
      \<and> 0 \<le> effective_bseg nlat ilat res bseg0
      \<and> (reduce \<longrightarrow> res \<le> effective_bseg nlat ilat res bseg0)
      \<and> 6 * ((effective_bseg nlat ilat res bseg0 + 1) * (res + 1)) \<le> INT_MAX)"

section \<open>The tree of the catalogue: AddSubtileData and AddSubtileTextures\<close>




section \<open>Unresolved indices and the not-loaded bit\<close>


text \<open>
  The invariant of a descriptor: with bit \<open>0x80\<close> of \<open>flag\<close> clear, \<open>tex\<close> is not an
  index stored by a cast, so it is a pointer from the device or \<open>NULL\<close>. For a tree it
  holds of every descriptor.
\<close>

definition published :: "TILEDESC \<Rightarrow> bool" where
  "published d = (flag d AND 0x80 = 0 \<longrightarrow> \<not> is_index (tex d))"



section \<open>Properties\<close>

subsection \<open>The request queue\<close>

lemma ring_slot_distinct:
  fixes M :: nat
  assumes "i < n" "n < M"
  shows "(i + a) mod M \<noteq> (a + n) mod M"
proof
  assume eq: "(i + a) mod M = (a + n) mod M"
  have le: "a + i \<le> a + n"
    using assms by simp
  have "(a + n) mod M = (a + i) mod M"
    using eq by (simp add: add.commute)
  then have "M dvd (a + n) - (a + i)"
    using le mod_eq_dvd_iff_nat by blast
  then have "M dvd n - i"
    by simp
  moreover have "0 < n - i" "n - i < M"
    using assms by simp_all
  ultimately show False
    using nat_dvd_not_less by blast
qed

lemma request_present_iff:
  "request_present M tb tile \<longleftrightarrow> tile \<in> td ` set (queue_contents M tb)"
  by (auto simp: request_present_def queue_contents_def list_ex_iff)

lemma queue_contents_enqueue:
  assumes ok: "queue_ok M tb" and room: "nqueue tb \<noteq> M"
  shows "queue_contents M (tb\<lparr>loadqueue := (loadqueue tb)[queue_in tb := q],
                              nqueue := nqueue tb + 1,
                              queue_in := (queue_in tb + 1) mod M\<rparr>)
         = queue_contents M tb @ [q]"
proof -
  have lt: "nqueue tb < M" using ok room by (simp add: queue_ok_def)
  have qin: "queue_in tb = (queue_out tb + nqueue tb) mod M" "queue_in tb < M"
    "length (loadqueue tb) = M"
    using ok by (simp_all add: queue_ok_def)
  have old: "(loadqueue tb)[queue_in tb := q] ! ((i + queue_out tb) mod M)
             = loadqueue tb ! ((i + queue_out tb) mod M)" if "i < nqueue tb" for i
    using ring_slot_distinct [OF that lt, of "queue_out tb"] qin by simp
  have new: "(loadqueue tb)[queue_in tb := q] ! ((nqueue tb + queue_out tb) mod M) = q"
    using qin by (simp add: add.commute)
  show ?thesis
    using old new by (simp add: queue_contents_def)
qed

text \<open>
  Claim C5. On a well-formed ring buffer, \<open>LoadTileAsync\<close> returns false exactly when
  the queue holds \<open>MAXQUEUE\<close> requests or one of the waiting requests is for the same
  descriptor, and then the buffer is unchanged; otherwise it returns true, the request is
  appended behind the waiting ones, \<open>nqueue\<close> grows by one, \<open>queue_out\<close> stays and the
  ring remains well formed.
\<close>

theorem LoadTileAsync_reject_or_append:
  assumes "queue_ok M tb"
  shows "(fst (LoadTileAsync M nm tile tb) = False \<longleftrightarrow>
            nqueue tb = M \<or> tile \<in> td ` set (queue_contents M tb))
       \<and> (fst (LoadTileAsync M nm tile tb) = False \<longrightarrow>
            snd (LoadTileAsync M nm tile tb) = tb)
       \<and> (fst (LoadTileAsync M nm tile tb) = True \<longrightarrow>
            queue_contents M (snd (LoadTileAsync M nm tile tb))
              = queue_contents M tb @ [\<lparr>name = nm, td = tile\<rparr>]
          \<and> nqueue (snd (LoadTileAsync M nm tile tb)) = nqueue tb + 1
          \<and> queue_out (snd (LoadTileAsync M nm tile tb)) = queue_out tb
          \<and> queue_ok M (snd (LoadTileAsync M nm tile tb)))"
proof (cases "nqueue tb = M \<or> request_present M tb tile")
  case True
  then show ?thesis
    by (auto simp: LoadTileAsync_def request_present_iff)
next
  case False
  then have room: "nqueue tb \<noteq> M" and fresh: "\<not> request_present M tb tile"
    by simp_all
  have res: "LoadTileAsync M nm tile tb =
      (True, tb\<lparr>loadqueue := (loadqueue tb)[queue_in tb := \<lparr>name = nm, td = tile\<rparr>],
                nqueue := nqueue tb + 1, queue_in := (queue_in tb + 1) mod M\<rparr>)"
    using room fresh by (simp add: LoadTileAsync_def)
  have app: "queue_contents M (snd (LoadTileAsync M nm tile tb))
       = queue_contents M tb @ [\<lparr>name = nm, td = tile\<rparr>]"
    unfolding res snd_conv by (rule queue_contents_enqueue [OF assms room])
  have ok': "queue_ok M (snd (LoadTileAsync M nm tile tb))"
    using assms room unfolding res snd_conv
    by (simp add: queue_ok_def mod_Suc_eq add.commute mod_simps)
  show ?thesis
    using room fresh app ok' by (simp add: res request_present_iff [symmetric])
qed

theorem LoadTileAsync_reject_or_append_witness:
  "queue_ok 2 \<lparr>nbuf = 0, nused = 0, last = 0, buf = [], nqueue = 1, queue_in = 0,
              queue_out = 1,
              loadqueue = [\<lparr>name = ''Moon'', td = 0\<rparr>, \<lparr>name = ''Earth'', td = 5\<rparr>]\<rparr>
   \<and> LoadTileAsync 2 ''Earth'' 5
        \<lparr>nbuf = 0, nused = 0, last = 0, buf = [], nqueue = 1, queue_in = 0, queue_out = 1,
         loadqueue = [\<lparr>name = ''Moon'', td = 0\<rparr>, \<lparr>name = ''Earth'', td = 5\<rparr>]\<rparr>
     = (False,
        \<lparr>nbuf = 0, nused = 0, last = 0, buf = [], nqueue = 1, queue_in = 0, queue_out = 1,
         loadqueue = [\<lparr>name = ''Moon'', td = 0\<rparr>, \<lparr>name = ''Earth'', td = 5\<rparr>]\<rparr>)
   \<and> queue_contents 2 (snd (LoadTileAsync 2 ''Earth'' 0
        \<lparr>nbuf = 0, nused = 0, last = 0, buf = [], nqueue = 1, queue_in = 0, queue_out = 1,
         loadqueue = [\<lparr>name = ''Moon'', td = 0\<rparr>, \<lparr>name = ''Earth'', td = 5\<rparr>]\<rparr>))
     = [\<lparr>name = ''Earth'', td = 5\<rparr>, \<lparr>name = ''Earth'', td = 0\<rparr>]"
proof -
  let ?T = "\<lparr>nbuf = 0, nused = 0, last = 0, buf = [], nqueue = 1, queue_in = 0,
              queue_out = 1,
              loadqueue = [\<lparr>name = ''Moon'', td = 0\<rparr>, \<lparr>name = ''Earth'', td = 5\<rparr>]\<rparr>"
  have ok: "queue_ok 2 ?T"
    by (simp add: queue_ok_def)
  note th5 = LoadTileAsync_reject_or_append [OF ok, of "''Earth''" 5]
  note th0 = LoadTileAsync_reject_or_append [OF ok, of "''Earth''" 0]
  have dup: "fst (LoadTileAsync 2 ''Earth'' 5 ?T) = False"
    using th5 by (simp add: queue_contents_def)
  then have same: "snd (LoadTileAsync 2 ''Earth'' 5 ?T) = ?T"
    using th5 by blast
  have acc: "fst (LoadTileAsync 2 ''Earth'' 0 ?T) = True"
    using th0 by (simp add: queue_contents_def)
  then have app: "queue_contents 2 (snd (LoadTileAsync 2 ''Earth'' 0 ?T))
      = queue_contents 2 ?T @ [\<lparr>name = ''Earth'', td = 0\<rparr>]"
    using th0 by blast
  have "LoadTileAsync 2 ''Earth'' 5 ?T = (False, ?T)"
    using dup same by (simp add: prod_eq_iff)
  moreover have "queue_contents 2 (snd (LoadTileAsync 2 ''Earth'' 0 ?T))
      = [\<lparr>name = ''Earth'', td = 5\<rparr>, \<lparr>name = ''Earth'', td = 0\<rparr>]"
    unfolding app by (simp add: queue_contents_def)
  ultimately show ?thesis
    using ok by blast
qed

subsection \<open>The rate limit\<close>

lemma limit_loop_le: "limit_loop a l m \<le> m"
proof (induction a l m rule: limit_loop.induct)
  case (1 a l m)
  show ?case
  proof (cases "exceeds a l \<and> m > 5")
    case True
    with "1.IH" have "limit_loop a (l * 2.0) (m - 1) \<le> m - 1" by simp
    with True show ?thesis by (subst limit_loop.simps) simp
  next
    case False
    then show ?thesis by (subst limit_loop.simps) auto
  qed
qed

lemma limit_loop_ge: "5 \<le> m \<Longrightarrow> 5 \<le> limit_loop a l m"
proof (induction a l m rule: limit_loop.induct)
  case (1 a l m)
  show ?case
  proof (cases "exceeds a l \<and> m > 5")
    case True
    with "1.IH" have "5 \<le> limit_loop a (l * 2.0) (m - 1)" by simp
    with True show ?thesis by (subst limit_loop.simps) simp
  next
    case False
    with "1.prems" show ?thesis by (subst limit_loop.simps) auto
  qed
qed

lemma limit_loop_NaN: "limit_loop NaN l m = m"
  by (subst limit_loop.simps) simp

text \<open>
  The loop in closed form: it runs at most \<open>maxlevel - 5\<close> times, and it has run once
  more for each of the thresholds \<open>l, 2 l, 4 l, \<dots>\<close> that \<open>cstep\<close> exceeds.
\<close>

lemma limit_loop_closed:
  "0 \<le> l \<Longrightarrow> limit_loop (Angle c) l m
     = m - int (length (filter (\<lambda>k. l * 2 ^ k < c) [0..<nat (m - 5)]))"
proof (induction "nat (m - 5)" arbitrary: l m)
  case 0
  then have "\<not> m > 5" by simp
  then show ?case
    using 0 by (subst limit_loop.simps) simp
next
  case (Suc n)
  then have m: "m > 5" "nat (m - 5) = Suc n" "n = nat (m - 1 - 5)" by simp_all
  show ?case
  proof (cases "l < c")
    case True
    have step: "limit_loop (Angle c) l m = limit_loop (Angle c) (l * 2.0) (m - 1)"
      using True m(1) by (subst limit_loop.simps) simp
    have ih: "limit_loop (Angle c) (l * 2.0) (m - 1)
        = m - 1 - int (length (filter (\<lambda>k. l * 2.0 * 2 ^ k < c) [0..<n]))"
      using Suc.hyps(1) [OF m(3), of "l * 2.0"] Suc.prems m(3) by simp
    have "[0..<Suc n] = 0 # map Suc [0..<n]"
      by (simp add: upt_conv_Cons map_Suc_upt del: upt_Suc)
    then have "filter (\<lambda>k. l * 2 ^ k < c) [0..<Suc n]
        = 0 # map Suc (filter (\<lambda>k. l * 2.0 * 2 ^ k < c) [0..<n])"
      using True by (simp add: filter_map comp_def mult.assoc del: upt_Suc)
    then have "int (length (filter (\<lambda>k. l * 2 ^ k < c) [0..<nat (m - 5)]))
        = 1 + int (length (filter (\<lambda>k. l * 2.0 * 2 ^ k < c) [0..<n]))"
      unfolding m(2) by simp
    then show ?thesis
      unfolding step ih by simp
  next
    case False
    have "limit_loop (Angle c) l m = m"
      using False by (subst limit_loop.simps) simp
    moreover have "filter (\<lambda>k. l * 2 ^ k < c) [0..<nat (m - 5)] = []"
    proof -
      have "\<not> l * 2 ^ k < c" for k :: nat
      proof -
        have "l * 1 \<le> l * 2 ^ k"
          using Suc.prems by (intro mult_left_mono) simp_all
        then show ?thesis using False by simp
      qed
      then show ?thesis by (simp add: filter_empty_conv)
    qed
    ultimately show ?thesis by simp
  qed
qed

lemma limit_loop_antimono:
  "c1 \<le> c2 \<Longrightarrow> 0 \<le> l \<Longrightarrow> limit_loop (Angle c2) l m \<le> limit_loop (Angle c1) l m"
proof -
  assume c: "c1 \<le> c2" and l: "0 \<le> l"
  have "length (filter (\<lambda>k. l * 2 ^ k < c1) [0..<nat (m - 5)])
      \<le> length (filter (\<lambda>k. l * 2 ^ k < c2) [0..<nat (m - 5)])"
  proof -
    have "filter (\<lambda>k. l * 2 ^ k < c1) [0..<nat (m - 5)]
        = filter (\<lambda>k. l * 2 ^ k < c1) (filter (\<lambda>k. l * 2 ^ k < c2) [0..<nat (m - 5)])"
      using c by (auto intro!: filter_cong)
    then show ?thesis
      by (metis length_filter_le)
  qed
  then show ?thesis
    by (simp add: limit_loop_closed [OF l])
qed

lemma limitstep0_pos: "0 \<le> limitstep0"
  by (simp add: limitstep0_def)

text \<open>
  Claim C6, as stated, fails for the level that is rendered: \<open>Render\<close> first clamps the
  requested level to \<open>maxlvl\<close>. With \<open>maxlvl = 8\<close>, a requested level 14 and a camera
  that has not moved, the bound of the rate limit is 14 and the level rendered is 8.
\<close>

theorem Render_level_counterexample:
  "maxlevel_of (Angle 0) = 14 \<and> Render_tgtlvl 8 14 (Angle 0) = 8
   \<and> Render_tgtlvl 8 14 (Angle 0) \<noteq> min 14 (maxlevel_of (Angle 0))"
proof -
  have "limit_loop (Angle 0) limitstep0 14 = 14"
    by (subst limit_loop.simps) (simp add: limitstep0_def)
  then show ?thesis
    by (simp add: maxlevel_of_def Render_tgtlvl_def SURF_MAX_PATCHLEVEL_def)
qed

text \<open>
  Claim C6, amended. The bound \<open>maxlevel\<close> of a frame is a function of \<open>cstep\<close> alone.
  The loop starts from the double \<open>5.12 * 2^-14\<close>, which is \<open>5764607523034235 / 2^64\<close>,
  and from 14, and doubles the limit and decrements \<open>maxlevel\<close> while \<open>cstep\<close> exceeds
  the limit and \<open>maxlevel > 5\<close>: the result is 14 less the number of the nine limits
  \<open>limitstep0 \<cdot> 2^k\<close>, \<open>k < 9\<close>, that \<open>cstep\<close> exceeds, and 14 when \<open>cstep\<close> is NaN. A
  larger \<open>cstep\<close> never gives a larger bound, the bound stays between 5 and 14, and the
  level rendered is the minimum of the requested level, \<open>maxlvl\<close> and the bound.
\<close>

theorem maxlevel_rate_limit:
  "maxlevel_of (Angle c)
     = 14 - int (length (filter (\<lambda>k. 5764607523034235 / 2 ^ 64 * 2 ^ k < c) [0..<9]))
   \<and> maxlevel_of NaN = 14
   \<and> (c1 \<le> c2 \<longrightarrow> maxlevel_of (Angle c2) \<le> maxlevel_of (Angle c1))
   \<and> 5 \<le> maxlevel_of a \<and> maxlevel_of a \<le> 14
   \<and> Render_tgtlvl maxlvl level a = min (min level maxlvl) (maxlevel_of a)"
proof -
  have "maxlevel_of (Angle c)
     = 14 - int (length (filter (\<lambda>k. 5764607523034235 / 2 ^ 64 * 2 ^ k < c) [0..<9]))"
    using limit_loop_closed [OF limitstep0_pos, of c 14]
    by (simp add: maxlevel_of_def SURF_MAX_PATCHLEVEL_def limitstep0_def)
  moreover have "maxlevel_of NaN = 14"
    by (simp add: maxlevel_of_def SURF_MAX_PATCHLEVEL_def limit_loop_NaN)
  moreover have "c1 \<le> c2 \<longrightarrow> maxlevel_of (Angle c2) \<le> maxlevel_of (Angle c1)"
    by (simp add: maxlevel_of_def limit_loop_antimono limitstep0_pos)
  moreover have "5 \<le> maxlevel_of a"
    by (simp add: maxlevel_of_def SURF_MAX_PATCHLEVEL_def limit_loop_ge)
  moreover have "maxlevel_of a \<le> 14"
    using limit_loop_le [of a limitstep0 SURF_MAX_PATCHLEVEL]
    by (simp add: maxlevel_of_def SURF_MAX_PATCHLEVEL_def)
  ultimately show ?thesis
    by (simp add: Render_tgtlvl_def maxlevel_of_def Let_def)
qed

theorem maxlevel_rate_limit_witness:
  "(5764607523034235 / 2 ^ 64 :: real) \<le> 0.6
   \<and> maxlevel_of (Angle (5764607523034235 / 2 ^ 64)) = 14
   \<and> maxlevel_of (Angle 0.001) = 12
   \<and> maxlevel_of (Angle 0.6) = 5
   \<and> maxlevel_of (Angle 0.6) \<le> maxlevel_of (Angle (5764607523034235 / 2 ^ 64))
   \<and> Render_tgtlvl 14 12 (Angle 0.6) = 5"
proof -
  have f: "[0..<9] = [0, 1, 2, 3, 4, 5, 6, 7, 8 :: nat]"
    by (simp add: upt_rec)
  have a: "maxlevel_of (Angle (5764607523034235 / 2 ^ 64)) = 14"
    using maxlevel_rate_limit [of "5764607523034235 / 2 ^ 64" 0 0 NaN 0 0]
    unfolding f by simp
  have b: "maxlevel_of (Angle 0.001) = 12"
    using maxlevel_rate_limit [of "0.001" 0 0 NaN 0 0] unfolding f by simp
  have c: "maxlevel_of (Angle 0.6) = 5"
    using maxlevel_rate_limit [of "0.6" 0 0 NaN 0 0] unfolding f by simp
  have h: "(5764607523034235 / 2 ^ 64 :: real) \<le> 0.6"
    by simp
  then have d: "maxlevel_of (Angle 0.6) \<le> maxlevel_of (Angle (5764607523034235 / 2 ^ 64))"
    using maxlevel_rate_limit [of 0 "5764607523034235 / 2 ^ 64" "0.6" NaN 0 0] by blast
  have "Render_tgtlvl 14 12 (Angle 0.6) = min (min 12 14) (maxlevel_of (Angle 0.6))"
    using maxlevel_rate_limit [of 0 0 0 "Angle 0.6" 14 12] by blast
  then have e: "Render_tgtlvl 14 12 (Angle 0.6) = 5"
    unfolding c by simp
  show ?thesis
    using a b c d e h by blast
qed

subsection \<open>Deleting descriptors\<close>

lemma free_slots_empty: "free_slots {} b = b"
  by (simp add: free_slots_def map_nth)

lemma free_slots_length: "length (free_slots S b) = length b"
  by (simp add: free_slots_def)

lemma free_slots_twice: "free_slots S (free_slots T b) = free_slots (T \<union> S) b"
  by (auto simp: free_slots_def)

lemma free_slots_update: "(free_slots S b)[j := False] = free_slots (insert j S) b"
proof (cases "j < length b")
  case True
  then show ?thesis
    by (intro nth_equalityI) (auto simp: free_slots_def nth_list_update)
next
  case False
  then have "(free_slots S b)[j := False] = free_slots S b"
    by (simp add: free_slots_def list_update_beyond)
  moreover have "free_slots (insert j S) b = free_slots S b"
    using False by (auto simp: free_slots_def)
  ultimately show ?thesis by simp
qed

lemma DeleteTile_true_iff:
  "fst (DeleteTile d tb) \<longleftrightarrow> (\<forall>n \<in> set (nodes d). raw (tex n) = 0)"
  "fst (DeleteTile_loop subs tb) \<longleftrightarrow> (\<forall>n \<in> set (nodes_list subs). raw (tex n) = 0)"
proof (induction d tb and subs tb rule: DeleteTile_DeleteTile_loop.induct)
  case (1 fl t lt subs slot tb)
  then show ?case by (auto split: prod.splits)
next
  case (2 tb)
  then show ?case by simp
next
  case (3 rest tb)
  then show ?case by (auto split: prod.splits)
next
  case (4 c rest tb)
  then show ?case
    by (auto split: prod.splits)
qed


lemma DeleteTile_gone_iff:
  "fst (snd (DeleteTile d tb)) = None \<longleftrightarrow> fst (DeleteTile d tb)"
  by (cases d) (auto split: prod.splits)

lemma DeleteTile_frees:
  "fst (DeleteTile d tb) \<Longrightarrow>
     snd (snd (DeleteTile d tb))
       = tb\<lparr>buf := free_slots (ofs ` set (nodes d)) (buf tb),
            nused := nused tb - length (nodes d)\<rparr>"
  "fst (DeleteTile_loop subs tb) \<Longrightarrow>
     snd (snd (DeleteTile_loop subs tb))
       = tb\<lparr>buf := free_slots (ofs ` set (nodes_list subs)) (buf tb),
            nused := nused tb - length (nodes_list subs)\<rparr>"
proof (induction d tb and subs tb rule: DeleteTile_DeleteTile_loop.induct)
  case (1 fl t lt subs slot tb)
  then show ?case
    by (auto split: prod.splits simp: free_slots_update)
next
  case (2 tb)
  then show ?case by (simp add: free_slots_empty)
next
  case (3 rest tb)
  then show ?case by (auto split: prod.splits)
next
  case (4 c rest tb)
  then show ?case
    by (auto split: prod.splits if_splits simp: free_slots_twice image_Un)
qed


text \<open>
  Claim C2, as stated, fails: a descriptor whose \<open>tex\<close> holds an unresolved archive
  index has no loaded texture, and \<open>DeleteTile\<close> refuses to delete it.
\<close>

theorem DeleteTile_unresolved_index_counterexample:
  "no_loaded_texture (TILEDESC 0x80 (TexIdx 5) NULLTEX [None, None, None, None] 0)
   \<and> fst (DeleteTile (TILEDESC 0x80 (TexIdx 5) NULLTEX [None, None, None, None] 0)
        \<lparr>nbuf = 16, nused = 1, last = 0, buf = True # replicate 15 False,
         nqueue = 0, queue_in = 0, queue_out = 0, loadqueue = []\<rparr>) = False"
  by (simp add: no_loaded_texture_def)

text \<open>
  Claim C2, amended. \<open>DeleteTile\<close> returns true exactly when the \<open>tex\<close> field of every
  descriptor of the subtree is \<open>NULL\<close> (all bits zero); a non-zero archive index or
  \<open>NOTILE\<close> blocks the deletion as a texture pointer does. When it returns true the
  descriptor is gone, the slot of every descriptor of the subtree is empty, \<open>nused\<close> has
  dropped by their number, and no descriptor of the subtree held a loaded texture.
\<close>

theorem DeleteTile_true_iff_all_tex_null:
  "(fst (DeleteTile d tb) \<longleftrightarrow> all_tex_null d)
   \<and> (fst (DeleteTile d tb) \<longrightarrow>
        fst (snd (DeleteTile d tb)) = None
      \<and> snd (snd (DeleteTile d tb))
          = tb\<lparr>buf := free_slots (ofs ` set (nodes d)) (buf tb),
               nused := nused tb - length (nodes d)\<rparr>
      \<and> no_loaded_texture d)"
proof -
  have iff: "fst (DeleteTile d tb) \<longleftrightarrow> all_tex_null d"
    by (simp add: DeleteTile_true_iff(1) all_tex_null_def list_all_iff)
  have "no_loaded_texture d" if "all_tex_null d"
  proof -
    have "\<not> loaded_texture r" if "raw r = 0" for r
      using that by (cases r) simp_all
    then show ?thesis
      using that by (auto simp: all_tex_null_def no_loaded_texture_def list_all_iff)
  qed
  then show ?thesis
    using iff DeleteTile_gone_iff [of d tb] DeleteTile_frees(1) [of d tb] by blast
qed

theorem DeleteTile_true_iff_all_tex_null_witness:
  "all_tex_null (TILEDESC 0 NULLTEX NULLTEX
       [None, Some (TILEDESC 0x80 (TexIdx 0) NULLTEX [None, None, None, None] 1), None, None] 0)
   \<and> DeleteTile (TILEDESC 0 NULLTEX NULLTEX
       [None, Some (TILEDESC 0x80 (TexIdx 0) NULLTEX [None, None, None, None] 1), None, None] 0)
       \<lparr>nbuf = 4, nused = 3, last = 2, buf = [True, True, True, False],
        nqueue = 0, queue_in = 0, queue_out = 0, loadqueue = []\<rparr>
     = (True, None,
        \<lparr>nbuf = 4, nused = 1, last = 2, buf = [False, False, True, False],
         nqueue = 0, queue_in = 0, queue_out = 0, loadqueue = []\<rparr>)"
proof -
  let ?d = "TILEDESC 0 NULLTEX NULLTEX
       [None, Some (TILEDESC 0x80 (TexIdx 0) NULLTEX [None, None, None, None] 1), None, None] 0"
  let ?tb = "\<lparr>nbuf = 4, nused = 3, last = 2, buf = [True, True, True, False],
        nqueue = 0, queue_in = 0, queue_out = 0, loadqueue = []\<rparr>"
  have a: "all_tex_null ?d"
    by (simp add: all_tex_null_def)
  note th = DeleteTile_true_iff_all_tex_null [of ?d ?tb]
  have t: "fst (DeleteTile ?d ?tb)"
    using th a by blast
  have g: "fst (snd (DeleteTile ?d ?tb)) = None"
    using th t by blast
  have "snd (snd (DeleteTile ?d ?tb))
      = ?tb\<lparr>buf := free_slots (ofs ` set (nodes ?d)) (buf ?tb),
             nused := nused ?tb - length (nodes ?d)\<rparr>"
    using th t by blast
  also have "\<dots> = \<lparr>nbuf = 4, nused = 1, last = 2, buf = [False, False, True, False],
         nqueue = 0, queue_in = 0, queue_out = 0, loadqueue = []\<rparr>"
    by (simp add: free_slots_def upt_rec)
  finally show ?thesis
    using a t g by (simp add: prod_eq_iff)
qed


text \<open>
  Claim C10. \<open>DeleteTile\<close> looks at \<open>tex\<close> only. Whatever the \<open>ltex\<close> fields hold, a
  subtree whose \<open>tex\<close> fields are all \<open>NULL\<close> is deleted: the call returns true, the
  descriptor is gone and its slots are empty, and nothing but the pool has changed, so a
  mask texture held in \<open>ltex\<close> goes with the descriptor. The loader produces such a
  descriptor when the read of the surface fails and the read of the mask succeeds.
\<close>

theorem DeleteTile_drops_ltex:
  "(all_tex_null d \<longrightarrow>
      DeleteTile d tb
        = (True, None, tb\<lparr>buf := free_slots (ofs ` set (nodes d)) (buf tb),
                           nused := nused tb - length (nodes d)\<rparr>))
   \<and> ((flag q AND 3 = 3 \<or> flag q AND 4 \<noteq> 0) \<and> raw (tex q) \<noteq> NOTILE
        \<and> raw (ltex q) \<noteq> NOTILE \<and> flag q AND 0x40 = 0
        \<and> rd (nm @ ''_tile.tex'') (raw (tex q)) = None
        \<and> rd (nm @ ''_tile_lmask.tex'') (raw (ltex q)) = Some p
        \<and> nodes_list (subtile q) = [] \<longrightarrow>
      tex (load_tile rd nm q) = NULLTEX \<and> ltex (load_tile rd nm q) = TexPtr p
      \<and> flag (load_tile rd nm q) AND 0x80 = 0
      \<and> fst (DeleteTile (load_tile rd nm q) tb))"
proof -
  have one: "DeleteTile d tb
        = (True, None, tb\<lparr>buf := free_slots (ofs ` set (nodes d)) (buf tb),
                           nused := nused tb - length (nodes d)\<rparr>)"
    if "all_tex_null d"
  proof -
    have t: "fst (DeleteTile d tb)"
      using that by (simp add: DeleteTile_true_iff(1) all_tex_null_def list_all_iff)
    then show ?thesis
      using DeleteTile_gone_iff [of d tb] DeleteTile_frees(1) [of d tb]
      by (simp add: prod_eq_iff)
  qed
  have two: "tex (load_tile rd nm q) = NULLTEX \<and> ltex (load_tile rd nm q) = TexPtr p
      \<and> flag (load_tile rd nm q) AND 0x80 = 0
      \<and> fst (DeleteTile (load_tile rd nm q) tb)"
    if h: "flag q AND 3 = 3 \<or> flag q AND 4 \<noteq> 0" "raw (tex q) \<noteq> NOTILE"
      "raw (ltex q) \<noteq> NOTILE" "flag q AND 0x40 = 0"
      "rd (nm @ ''_tile.tex'') (raw (tex q)) = None"
      "rd (nm @ ''_tile_lmask.tex'') (raw (ltex q)) = Some p"
      "nodes_list (subtile q) = []"
  proof -
    have l: "load_tile rd nm q
        = TILEDESC (flag q AND 0x3F) NULLTEX (TexPtr p) (subtile q) (ofs q)"
      using h by (auto simp: load_tile_def NOTILE_def Let_def)
    have b: "(flag q AND 0x3F) AND 0x80 = 0"
      by (simp add: and.assoc)
    have "fst (DeleteTile (load_tile rd nm q) tb)"
      unfolding l using h(7) by (simp add: DeleteTile_true_iff(1) del: DeleteTile.simps)
    then show ?thesis
      using l b by simp
  qed
  show ?thesis
    using one two by blast
qed

theorem DeleteTile_drops_ltex_witness:
  "all_tex_null (TILEDESC 4 NULLTEX (TexPtr 0x1000) [None, None, None, None] 2)
   \<and> DeleteTile (TILEDESC 4 NULLTEX (TexPtr 0x1000) [None, None, None, None] 2)
        \<lparr>nbuf = 4, nused = 3, last = 2, buf = [True, True, True, False],
         nqueue = 0, queue_in = 0, queue_out = 0, loadqueue = []\<rparr>
      = (True, None,
         \<lparr>nbuf = 4, nused = 2, last = 2, buf = [True, True, False, False],
          nqueue = 0, queue_in = 0, queue_out = 0, loadqueue = []\<rparr>)
   \<and> load_tile (\<lambda>f k. if f = ''Earth_tile_lmask.tex'' then Some 0x1000 else None) ''Earth''
        (TILEDESC 0x84 (TexIdx 65792) (TexIdx 32896) [None, None, None, None] 2)
      = TILEDESC 4 NULLTEX (TexPtr 0x1000) [None, None, None, None] 2"
proof -
  let ?d = "TILEDESC 4 NULLTEX (TexPtr 0x1000) [None, None, None, None] 2"
  let ?q = "TILEDESC 0x84 (TexIdx 65792) (TexIdx 32896) [None, None, None, None] 2"
  let ?rd = "\<lambda>f k. if f = ''Earth_tile_lmask.tex'' then Some (0x1000 :: 32 word) else None"
  let ?tb = "\<lparr>nbuf = 4, nused = 3, last = 2, buf = [True, True, True, False],
        nqueue = 0, queue_in = 0, queue_out = 0, loadqueue = []\<rparr>"
  note th = DeleteTile_drops_ltex [of ?d ?tb ?q ?rd "''Earth''" "0x1000"]
  have a: "all_tex_null ?d"
    by (simp add: all_tex_null_def)
  have "DeleteTile ?d ?tb
        = (True, None, ?tb\<lparr>buf := free_slots (ofs ` set (nodes ?d)) (buf ?tb),
                            nused := nused ?tb - length (nodes ?d)\<rparr>)"
    using th a by blast
  also have "\<dots> = (True, None,
         \<lparr>nbuf = 4, nused = 2, last = 2, buf = [True, True, False, False],
          nqueue = 0, queue_in = 0, queue_out = 0, loadqueue = []\<rparr>)"
    by (simp add: free_slots_def upt_rec)
  finally have del: "DeleteTile ?d ?tb = (True, None,
         \<lparr>nbuf = 4, nused = 2, last = 2, buf = [True, True, False, False],
          nqueue = 0, queue_in = 0, queue_out = 0, loadqueue = []\<rparr>)" .
  have pre: "(flag ?q AND 3 = 3 \<or> flag ?q AND 4 \<noteq> 0) \<and> raw (tex ?q) \<noteq> NOTILE
        \<and> raw (ltex ?q) \<noteq> NOTILE \<and> flag ?q AND 0x40 = 0
        \<and> ?rd (''Earth'' @ ''_tile.tex'') (raw (tex ?q)) = None
        \<and> ?rd (''Earth'' @ ''_tile_lmask.tex'') (raw (ltex ?q)) = Some 0x1000
        \<and> nodes_list (subtile ?q) = []"
    by (simp add: NOTILE_def)
  then have "tex (load_tile ?rd ''Earth'' ?q) = NULLTEX
      \<and> ltex (load_tile ?rd ''Earth'' ?q) = TexPtr 0x1000"
    using th by blast
  moreover have "flag (load_tile ?rd ''Earth'' ?q) = 4"
      "subtile (load_tile ?rd ''Earth'' ?q) = [None, None, None, None]"
      "ofs (load_tile ?rd ''Earth'' ?q) = 2"
    by (simp_all add: load_tile_def Let_def)
  ultimately have "load_tile ?rd ''Earth'' ?q = ?d"
    by (cases "load_tile ?rd ''Earth'' ?q") simp
  then show ?thesis
    using a del by blast
qed

subsection \<open>Allocating descriptors\<close>









subsection \<open>The descent step of ProcessTile\<close>


lemma descend_loaded:
  assumes "subtile tile ! idx = Some st" "flag st AND 0x80 = 0" "raw (tex st) \<noteq> 0"
  shows "descend M nm tile idx sr (cr, ct, cl, cf) tb
           = (st, tb, (fullrange, tex st, ltex st, ucast (flag st)), (sr, ct, cl, cf))"
  using assms by (simp add: descend_def)

text \<open>
  Claim C3, as stated, fails: for a child with a loaded texture the backup arguments of
  the recursive call are the parent's current texture with the child's part of its range,
  not the child's own texture with the full range.
\<close>

theorem descend_backup_counterexample:
  "subtile (TILEDESC 0 (TexPtr 0x1000) NULLTEX
        [Some (TILEDESC 0 (TexPtr 0x2000) NULLTEX [None, None, None, None] 0),
         None, None, None] 0) ! 0
     = Some (TILEDESC 0 (TexPtr 0x2000) NULLTEX [None, None, None, None] 0)
   \<and> snd (snd (snd (descend 10 ''Earth''
        (TILEDESC 0 (TexPtr 0x1000) NULLTEX
          [Some (TILEDESC 0 (TexPtr 0x2000) NULLTEX [None, None, None, None] 0),
           None, None, None] 0)
        0 (subrange_of fullrange 1 0) (fullrange, TexPtr 0x1000, NULLTEX, 0)
        \<lparr>nbuf = 16, nused = 1, last = 0, buf = True # replicate 15 False,
         nqueue = 0, queue_in = 0, queue_out = 0, loadqueue = []\<rparr>)))
     = (\<lparr>tumin = 0, tumax = 1/2, tvmin = 0, tvmax = 1/2\<rparr>, TexPtr 0x1000, NULLTEX, 0)
   \<and> snd (snd (snd (descend 10 ''Earth''
        (TILEDESC 0 (TexPtr 0x1000) NULLTEX
          [Some (TILEDESC 0 (TexPtr 0x2000) NULLTEX [None, None, None, None] 0),
           None, None, None] 0)
        0 (subrange_of fullrange 1 0) (fullrange, TexPtr 0x1000, NULLTEX, 0)
        \<lparr>nbuf = 16, nused = 1, last = 0, buf = True # replicate 15 False,
         nqueue = 0, queue_in = 0, queue_out = 0, loadqueue = []\<rparr>)))
     \<noteq> (fullrange, TexPtr 0x2000, NULLTEX, 0)"
  by (simp add: descend_def subrange_of_def fullrange_def)

text \<open>
  Claim C3, amended. In the loop over the children of \<open>ProcessTile\<close>, for a child that
  exists, has the not-loaded bit clear and a non-\<open>NULL\<close> \<open>tex\<close>, the recursive
  \<open>ProcessTile\<close> call is made on the child with the full range \<open>{0,1,0,1}\<close> and the
  child's own \<open>tex\<close>, \<open>ltex\<close> and \<open>flag\<close> as the current texture, and with the child's
  quarter of the running range and the running call's \<open>tex\<close>, \<open>ltex\<close> and \<open>flag\<close> as
  the backup; the tile buffer is passed on as it is, and the loop goes on with the next
  child.
\<close>

theorem ProcessTile_sub_loaded_child:
  assumes "idx < 4" and "lvl < tgtlvl fr"
    and "subtile tile ! idx = Some st" and "flag st AND 0x80 = 0" and "raw (tex st) \<noteq> 0"
  shows "ProcessTile_sub M nm fr (lvl, hemisp, ilat, nlat, ilng, nlng) tile (cr, ct, cl, cf) idx tb
       = (case ProcessTile M nm fr
                 (lvl + 1, hemisp, ilat * 2 + (1 - int (idx div 2)), nlat * 2,
                  ilng * 2 + int (idx mod 2), nlng * 2)
                 st
                 (\<lparr>tumin = 0, tumax = 1, tvmin = 0, tvmax = 1\<rparr>,
                  tex st, ltex st, ucast (flag st))
                 (\<lparr>tumin = tumin cr + real (idx mod 2) * ((tumax cr - tumin cr) / 2),
                   tumax = tumin cr + real (idx mod 2) * ((tumax cr - tumin cr) / 2)
                           + (tumax cr - tumin cr) / 2,
                   tvmin = tvmin cr + real (idx div 2) * ((tvmax cr - tvmin cr) / 2),
                   tvmax = tvmin cr + real (idx div 2) * ((tvmax cr - tvmin cr) / 2)
                           + (tvmax cr - tvmin cr) / 2\<rparr>,
                  ct, cl, cf)
                 tb of
            (st', tb2, draws) \<Rightarrow>
              case ProcessTile_sub M nm fr (lvl, hemisp, ilat, nlat, ilng, nlng)
                     (set_subtile tile idx (Some st')) (cr, ct, cl, cf) (idx + 1) tb2 of
                (tile', tb3, draws') \<Rightarrow> (tile', tb3, draws @ draws'))"
proof -
  have sr: "subrange_of cr (1 - int (idx div 2)) (int (idx mod 2))
      = \<lparr>tumin = tumin cr + real (idx mod 2) * ((tumax cr - tumin cr) / 2),
         tumax = tumin cr + real (idx mod 2) * ((tumax cr - tumin cr) / 2)
                 + (tumax cr - tumin cr) / 2,
         tvmin = tvmin cr + real (idx div 2) * ((tvmax cr - tvmin cr) / 2),
         tvmax = tvmin cr + real (idx div 2) * ((tvmax cr - tvmin cr) / 2)
                 + (tvmax cr - tvmin cr) / 2\<rparr>"
    by (simp add: subrange_of_def Let_def)
  have d: "descend M nm tile idx (subrange_of cr (1 - int (idx div 2)) (int (idx mod 2)))
             (cr, ct, cl, cf) tb
      = (st, tb, (fullrange, tex st, ltex st, ucast (flag st)),
         (subrange_of cr (1 - int (idx div 2)) (int (idx mod 2)), ct, cl, cf))"
    using assms(3-5) by (rule descend_loaded)
  show ?thesis
    unfolding sr [symmetric] fullrange_def [symmetric]
    using assms(1,2)
    by (subst ProcessTile_sub.simps) (simp add: Let_def d)
qed

theorem ProcessTile_sub_loaded_child_witness:
  "ProcessTile_sub 10 ''Earth''
     \<lparr>tgtlvl = 10, offview = (\<lambda>p. False), inview = (\<lambda>p. True),
      oblique = (\<lambda>p. True), coarse = (\<lambda>p. False), hidden = (\<lambda>p. False)\<rparr>
     (8, 0, 2, 8, 5, 32)
     (TILEDESC 0 (TexPtr 0x1000) NULLTEX
        [None, None, None,
         Some (TILEDESC 3 (TexPtr 0x2000) (TexPtr 0x3000) [None, None, None, None] 0)] 0)
     (\<lparr>tumin = 0, tumax = 1, tvmin = 0, tvmax = 1\<rparr>, TexPtr 0x1000, NULLTEX, 1) 3
     \<lparr>nbuf = 16, nused = 1, last = 0, buf = True # replicate 15 False,
      nqueue = 0, queue_in = 0, queue_out = 0, loadqueue = []\<rparr>
   = (TILEDESC 0 (TexPtr 0x1000) NULLTEX
        [None, None, None,
         Some (TILEDESC 3 (TexPtr 0x2000) (TexPtr 0x3000) [None, None, None, None] 0)] 0,
      \<lparr>nbuf = 16, nused = 1, last = 0, buf = True # replicate 15 False,
       nqueue = 0, queue_in = 0, queue_out = 0, loadqueue = []\<rparr>,
      [((9, 0, 4, 16, 11, 64),
        (\<lparr>tumin = 0, tumax = 1, tvmin = 0, tvmax = 1\<rparr>, TexPtr 0x2000, TexPtr 0x3000, 3))])
   \<and> ProcessTile_sub 10 ''Earth''
     \<lparr>tgtlvl = 10, offview = (\<lambda>p. False), inview = (\<lambda>p. True),
      oblique = (\<lambda>p. True), coarse = (\<lambda>p. True), hidden = (\<lambda>p. False)\<rparr>
     (8, 0, 2, 8, 5, 32)
     (TILEDESC 0 (TexPtr 0x1000) NULLTEX
        [None, None, None,
         Some (TILEDESC 3 (TexPtr 0x2000) (TexPtr 0x3000) [None, None, None, None] 0)] 0)
     (\<lparr>tumin = 0, tumax = 1, tvmin = 0, tvmax = 1\<rparr>, TexPtr 0x1000, NULLTEX, 1) 3
     \<lparr>nbuf = 16, nused = 1, last = 0, buf = True # replicate 15 False,
      nqueue = 0, queue_in = 0, queue_out = 0, loadqueue = []\<rparr>
   = (TILEDESC 0 (TexPtr 0x1000) NULLTEX
        [None, None, None,
         Some (TILEDESC 3 (TexPtr 0x2000) (TexPtr 0x3000) [None, None, None, None] 0)] 0,
      \<lparr>nbuf = 16, nused = 1, last = 0, buf = True # replicate 15 False,
       nqueue = 0, queue_in = 0, queue_out = 0, loadqueue = []\<rparr>,
      [((9, 0, 4, 16, 11, 64),
        (\<lparr>tumin = 1/2, tumax = 1, tvmin = 1/2, tvmax = 1\<rparr>, TexPtr 0x1000, NULLTEX, 1))])"
proof -
  let ?st = "TILEDESC 3 (TexPtr 0x2000) (TexPtr 0x3000) [None, None, None, None] 0"
  let ?tile = "TILEDESC 0 (TexPtr 0x1000) NULLTEX [None, None, None, Some ?st] 0"
  let ?fr = "\<lambda>c. \<lparr>tgtlvl = 10, offview = (\<lambda>p. False), inview = (\<lambda>p. True),
      oblique = (\<lambda>p. True), coarse = (\<lambda>p. c), hidden = (\<lambda>p. False)\<rparr>"
  have a: "(3::nat) < 4" by simp
  have b: "8 < tgtlvl (?fr c)" for c by simp
  have c: "subtile ?tile ! 3 = Some ?st" by simp
  have d: "flag ?st AND 0x80 = 0" by simp
  have e: "raw (tex ?st) \<noteq> 0" by simp
  show ?thesis
    unfolding ProcessTile_sub_loaded_child [OF a b [of False] c d e]
      ProcessTile_sub_loaded_child [OF a b [of True] c d e]
    by (simp add: ProcessTile.simps ProcessTile_sub.simps)
qed





subsection \<open>The light mask catalogue\<close>

lemma flag_set_flag: "flag (set_flag d f) = f"
  by (cases d) simp

lemma patch_loop_flags:
  assumes "n \<le> length tds" "n \<le> lo + length tflag" "lo \<le> i \<longrightarrow> idx = i - lo" "i < lo \<longrightarrow> idx = 0"
  shows "\<exists>tds' nm. patch_loop n lo tflag i idx tds nmask = Inr (tds', nm)
           \<and> length tds' = length tds
           \<and> (\<forall>k<i. tds' ! k = tds ! k)
           \<and> (\<forall>k. i \<le> k \<and> k < n \<longrightarrow>
                  flag (tds' ! k) = (if k < lo then 1 else ucast (tflag ! (k - lo))))"
  using assms
proof (induction n lo tflag i idx tds nmask rule: patch_loop.induct)
  case (1 n lo tflag i idx tds nmask)
  show ?case
  proof (cases "i < n")
    case False
    then show ?thesis
      by (subst patch_loop.simps) auto
  next
    case True
    then have inb: "\<not> length tds \<le> i" using "1.prems" by simp
    show ?thesis
    proof (cases "i < lo")
      case lt: True
      let ?tds = "tds[i := set_flag (tds ! i) 1]"
      have step: "patch_loop n lo tflag i idx tds nmask
                  = patch_loop n lo tflag (i + 1) idx ?tds nmask"
        using True inb lt by (subst patch_loop.simps) simp
      have "\<exists>tds' nm. patch_loop n lo tflag (i + 1) idx ?tds nmask = Inr (tds', nm)
           \<and> length tds' = length ?tds
           \<and> (\<forall>k<i + 1. tds' ! k = ?tds ! k)
           \<and> (\<forall>k. i + 1 \<le> k \<and> k < n \<longrightarrow>
                  flag (tds' ! k) = (if k < lo then 1 else ucast (tflag ! (k - lo))))"
      proof (rule "1.IH"(1) [OF True inb lt])
        show "n \<le> length ?tds" using "1.prems" by simp
        show "n \<le> lo + length tflag" using "1.prems" by simp
        show "lo \<le> i + 1 \<longrightarrow> idx = i + 1 - lo" using lt "1.prems" by simp
        show "i + 1 < lo \<longrightarrow> idx = 0" using lt "1.prems" by simp
      qed
      then obtain tds' nm where r: "patch_loop n lo tflag (i + 1) idx ?tds nmask = Inr (tds', nm)"
          "length tds' = length ?tds" "\<forall>k<i + 1. tds' ! k = ?tds ! k"
          "\<forall>k. i + 1 \<le> k \<and> k < n \<longrightarrow>
                  flag (tds' ! k) = (if k < lo then 1 else ucast (tflag ! (k - lo)))"
        by blast
      have here: "flag (tds' ! i) = 1"
        using r(3) inb by (simp add: flag_set_flag)
      have before: "\<forall>k<i. tds' ! k = tds ! k"
        using r(3) by simp
      have after: "\<forall>k. i \<le> k \<and> k < n \<longrightarrow>
                  flag (tds' ! k) = (if k < lo then 1 else ucast (tflag ! (k - lo)))"
      proof (intro allI impI)
        fix k assume k: "i \<le> k \<and> k < n"
        show "flag (tds' ! k) = (if k < lo then 1 else ucast (tflag ! (k - lo)))"
        proof (cases "k = i")
          case True
          then show ?thesis using here lt by simp
        next
          case False
          then show ?thesis using r(4) k by simp
        qed
      qed
      show ?thesis
        unfolding step using r(1,2) before after by simp
    next
      case ge: False
      then have idx: "idx = i - lo" using "1.prems" by simp
      have inb2: "\<not> length tflag \<le> idx"
        using "1.prems" True ge idx by simp
      define fl :: "8 word" where "fl = ucast (tflag ! idx)"
      let ?tds = "tds[i := set_flag (tds ! i) fl]"
      let ?nm = "if fl AND 3 = 3 \<or> fl AND 4 \<noteq> 0 then nmask + 1 else nmask"
      have step: "patch_loop n lo tflag i idx tds nmask
                  = patch_loop n lo tflag (i + 1) (idx + 1) ?tds ?nm"
        using True inb ge inb2 by (subst patch_loop.simps) (simp add: fl_def Let_def)
      have "\<exists>tds' nm. patch_loop n lo tflag (i + 1) (idx + 1) ?tds ?nm = Inr (tds', nm)
           \<and> length tds' = length ?tds
           \<and> (\<forall>k<i + 1. tds' ! k = ?tds ! k)
           \<and> (\<forall>k. i + 1 \<le> k \<and> k < n \<longrightarrow>
                  flag (tds' ! k) = (if k < lo then 1 else ucast (tflag ! (k - lo))))"
      proof (rule "1.IH"(2) [OF True inb ge inb2 fl_def])
        show "n \<le> length ?tds" using "1.prems" by simp
        show "n \<le> lo + length tflag" using "1.prems" by simp
        show "lo \<le> i + 1 \<longrightarrow> idx + 1 = i + 1 - lo" using ge idx by simp
        show "i + 1 < lo \<longrightarrow> idx + 1 = 0" using ge by simp
      qed
      then obtain tds' nm where r: "patch_loop n lo tflag (i + 1) (idx + 1) ?tds ?nm = Inr (tds', nm)"
          "length tds' = length ?tds" "\<forall>k<i + 1. tds' ! k = ?tds ! k"
          "\<forall>k. i + 1 \<le> k \<and> k < n \<longrightarrow>
                  flag (tds' ! k) = (if k < lo then 1 else ucast (tflag ! (k - lo)))"
        by blast
      have here: "flag (tds' ! i) = ucast (tflag ! (i - lo))"
        using r(3) inb idx by (simp add: flag_set_flag fl_def)
      have before: "\<forall>k<i. tds' ! k = tds ! k"
        using r(3) by simp
      have after: "\<forall>k. i \<le> k \<and> k < n \<longrightarrow>
                  flag (tds' ! k) = (if k < lo then 1 else ucast (tflag ! (k - lo)))"
      proof (intro allI impI)
        fix k assume k: "i \<le> k \<and> k < n"
        show "flag (tds' ! k) = (if k < lo then 1 else ucast (tflag ! (k - lo)))"
        proof (cases "k = i")
          case True
          then show ?thesis using here ge by simp
        next
          case False
          then show ?thesis using r(4) k by simp
        qed
      qed
      show ?thesis
        unfolding step using r(1,2) before after by simp
    qed
  qed
qed


lemma patchidx_le: "mb \<le> 8 \<Longrightarrow> patchidx ! mb \<le> 501"
  unfolding patchidx_def by (simp add: nth_Cons split: nat.splits)

lemma byte_via_word: "(ucast (ucast (b :: 8 word) :: 16 word) :: 8 word) = b"
  by (rule ucast_up_ucast_id) (simp add: is_up)

lemma read_lmask_old_style:
  assumes "take 8 f \<noteq> PLTA0100" "f ! 0 = 1" "f ! 1 = 8" "503 \<le> length f"
  shows "read_lmask f = Inr (1, 8, map (\<lambda>i. ucast (f ! (2 + i))) [0..<501])"
  using assms by (simp add: read_lmask_def patchidx_def)

lemma LoadPatchData_old_style:
  assumes f: "take 8 f \<noteq> PLTA0100" "f ! 0 = 1" "f ! 1 = 8" "503 \<le> length f"
    and mb: "mb \<le> 8" "patchidx ! mb \<le> length tds"
  shows "\<exists>tds' nm. LoadPatchData True (Some f) mb tds = Inr (True, tds', nm)
           \<and> length tds' = length tds
           \<and> (\<forall>i < patchidx ! mb. flag (tds' ! i) = f ! (i + 2))"
proof -
  let ?tflag = "map (\<lambda>i. ucast (f ! (2 + i))) [0..<501] :: 16 word list"
  have n: "patchidx ! mb \<le> 501"
    using mb(1) by (rule patchidx_le)
  have "\<exists>tds' nm. patch_loop (patchidx ! mb) 0 ?tflag 0 0 tds 0 = Inr (tds', nm)
           \<and> length tds' = length tds
           \<and> (\<forall>k<0. tds' ! k = tds ! k)
           \<and> (\<forall>k. 0 \<le> k \<and> k < patchidx ! mb \<longrightarrow>
                  flag (tds' ! k) = (if k < 0 then 1 else ucast (?tflag ! (k - 0))))"
    using mb(2) n by (intro patch_loop_flags) simp_all
  then obtain tds' nm where r: "patch_loop (patchidx ! mb) 0 ?tflag 0 0 tds 0 = Inr (tds', nm)"
      "length tds' = length tds"
      "\<forall>k. k < patchidx ! mb \<longrightarrow> flag (tds' ! k) = ucast (?tflag ! k)"
    by auto
  have fl: "flag (tds' ! i) = f ! (i + 2)" if "i < patchidx ! mb" for i
  proof -
    have "i < 501" using that n by simp
    then have "?tflag ! i = ucast (f ! (2 + i))"
      by simp
    then show ?thesis
      using r(3) that by (simp add: byte_via_word add.commute)
  qed
  have "LoadPatchData True (Some f) mb tds = Inr (True, tds', nm)"
    using mb(1) r(1) read_lmask_old_style [OF f]
    by (simp add: LoadPatchData_def patchidx_def)
  then show ?thesis
    using r(2) fl by blast
qed


lemma LoadPatchData_constant_file:
  shows "tile_flags (LoadPatchData True (Some (1 # 8 # replicate 501 c)) 8
                       (replicate 501 zero_TILEDESC))
         = Some (replicate 501 c)"
proof -
  let ?f = "1 # 8 # replicate 501 c"
  let ?tds = "replicate 501 zero_TILEDESC"
  have f: "take 8 ?f \<noteq> PLTA0100" "?f ! 0 = 1" "?f ! 1 = 8" "503 \<le> length ?f"
    by (simp_all add: PLTA0100_def)
  have mb: "(8::nat) \<le> 8" "patchidx ! 8 \<le> length ?tds"
    by (simp_all add: patchidx_def)
  obtain tds' nm where r: "LoadPatchData True (Some ?f) 8 ?tds = Inr (True, tds', nm)"
      "length tds' = length ?tds" "\<forall>i < patchidx ! 8. flag (tds' ! i) = ?f ! (i + 2)"
    using LoadPatchData_old_style [OF f mb] by blast
  have p: "patchidx ! 8 = 501"
    by (simp add: patchidx_def)
  have "map flag tds' = replicate 501 c"
  proof (rule nth_equalityI)
    show "length (map flag tds') = length (replicate 501 c)"
      using r(2) by simp
  next
    fix i assume "i < length (map flag tds')"
    then have i: "i < 501" using r(2) by simp
    then have "flag (tds' ! i) = ?f ! (i + 2)"
      using r(3) p by simp
    also have "\<dots> = c" using i by simp
    finally show "map flag tds' ! i = replicate 501 c ! i"
      using i r(2) by simp
  qed
  then show ?thesis
    by (simp add: r(1) tile_flags_def)
qed

text \<open>
  Claim C7, as stated, fails: the flag of base tile \<open>i\<close> is not the \<open>i\<close>-th byte of the
  file. In a file that starts with the bytes 1 and 8 and continues with 501 bytes of value
  7, every base tile gets the flag 7, while the bytes 0 and 1 of the file are 1 and 8.
\<close>

theorem LoadPatchData_file_offset_counterexample:
  "tile_flags (LoadPatchData True (Some (1 # 8 # replicate 501 7)) 8
                 (replicate 501 zero_TILEDESC))
     = Some (replicate 501 7)
   \<and> (1 # 8 # replicate 501 (7 :: 8 word)) ! 0 = 1
   \<and> (1 # 8 # replicate 501 (7 :: 8 word)) ! 1 = 8"
  using LoadPatchData_constant_file [of 7] by simp

text \<open>
  Claim C7, amended. With specular masks or lights enabled and a readable file that does
  not start with \<open>"PLTA0100"\<close>, whose first two bytes are 1 and 8 and which holds the
  501 flag bytes after them, \<open>LoadPatchData\<close> returns true and the flag of base tile
  \<open>i\<close> is the byte at offset \<open>i + 2\<close> of the file, the \<open>i\<close>-th of the flag bytes that
  follow the two bytes of \<open>minres\<close> and \<open>maxres\<close>, for every \<open>i\<close> below
  \<open>patchidx[maxbaselvl]\<close>, which is \<open>patchidx[8] = 501\<close> when all base levels exist.
\<close>

theorem LoadPatchData_old_style_flags:
  assumes "take 8 f \<noteq> PLTA0100" and "f ! 0 = 1" and "f ! 1 = 8" and "503 \<le> length f"
    and "maxbaselvl \<le> 8" and "patchidx ! maxbaselvl \<le> length tiledesc"
  shows "\<exists>tiledesc' nmask.
           LoadPatchData True (Some f) maxbaselvl tiledesc = Inr (True, tiledesc', nmask)
           \<and> length tiledesc' = length tiledesc
           \<and> (\<forall>i < patchidx ! maxbaselvl. flag (tiledesc' ! i) = f ! (i + 2))
           \<and> patchidx ! 8 = 501"
  using LoadPatchData_old_style [OF assms] by (simp add: patchidx_def)

theorem LoadPatchData_old_style_flags_witness:
  "take 8 (1 # 8 # 5 # replicate 500 6) \<noteq> PLTA0100
   \<and> (503::nat) \<le> length (1 # 8 # 5 # replicate 500 6 :: 8 word list)
   \<and> patchidx ! 8 \<le> length (replicate 501 zero_TILEDESC)
   \<and> (\<exists>tiledesc' nmask.
         LoadPatchData True (Some (1 # 8 # 5 # replicate 500 6)) 8
            (replicate 501 zero_TILEDESC) = Inr (True, tiledesc', nmask)
         \<and> flag (tiledesc' ! 0) = 5 \<and> flag (tiledesc' ! 1) = 6)"
proof -
  let ?f = "1 # 8 # 5 # replicate 500 6 :: 8 word list"
  let ?tds = "replicate 501 zero_TILEDESC"
  have h1: "take 8 ?f \<noteq> PLTA0100"
    by (simp add: PLTA0100_def)
  have h2: "?f ! 0 = 1" "?f ! 1 = 8" by simp_all
  have h3: "503 \<le> length ?f" by simp
  have h4: "(8::nat) \<le> 8" by simp
  have h5: "patchidx ! 8 \<le> length ?tds" by (simp add: patchidx_def)
  obtain tiledesc' nmask where
    r: "LoadPatchData True (Some ?f) 8 ?tds = Inr (True, tiledesc', nmask)"
       "\<forall>i < patchidx ! 8. flag (tiledesc' ! i) = ?f ! (i + 2)" "patchidx ! 8 = 501"
    using LoadPatchData_old_style_flags [OF h1 h2 h3 h4 h5] by blast
  have "flag (tiledesc' ! 0) = 5" "flag (tiledesc' ! 1) = 6"
    using r(2) unfolding r(3) by simp_all
  then show ?thesis
    using h1 h3 h5 r(1) by blast
qed

subsection \<open>The conversion of offsets to indices\<close>

lemma assign_loop_length: "length (assign_loop upd L i tfs) = length tfs"
  by (induction L arbitrary: i tfs) simp_all

lemma assign_loop_frame:
  assumes "\<And>v r. other (upd v r) = other r"
  shows "map other (assign_loop upd L i tfs) = map other tfs"
proof (induction L arbitrary: i tfs)
  case Nil
  then show ?case by simp
next
  case (Cons e rest)
  have "map other (tfs[fst e := upd (of_nat i) (tfs ! fst e)]) = map other tfs"
  proof (cases "fst e < length tfs")
    case True
    then have "(map other tfs)[fst e := other (tfs ! fst e)] = map other tfs"
      by (metis length_map list_update_id nth_map)
    then show ?thesis by (simp add: map_update assms)
  next
    case False
    then show ?thesis by (simp add: list_update_beyond)
  qed
  then show ?case
    using Cons.IH by simp
qed

lemma assign_loop_outside:
  "j \<notin> fst ` set (takeWhile (\<lambda>e. snd e \<noteq> NOTILE) L) \<Longrightarrow> assign_loop upd L i tfs ! j = tfs ! j"
proof (induction L arbitrary: i tfs)
  case Nil
  then show ?case by simp
next
  case (Cons e rest)
  then show ?case by (cases "snd e \<noteq> NOTILE") auto
qed

lemma assign_loop_ranks:
  assumes "\<And>v r. get (upd v r) = v"
  shows "distinct (map fst L) \<Longrightarrow> \<forall>e\<in>set L. fst e < length tfs \<Longrightarrow>
         p < length (takeWhile (\<lambda>e. snd e \<noteq> NOTILE) L) \<Longrightarrow>
         get (assign_loop upd L i tfs ! fst (takeWhile (\<lambda>e. snd e \<noteq> NOTILE) L ! p)) = of_nat (i + p)"
proof (induction L arbitrary: i tfs p)
  case Nil
  then show ?case by simp
next
  case (Cons e rest)
  let ?P = "\<lambda>e. snd e \<noteq> NOTILE"
  let ?tfs = "tfs[fst e := upd (of_nat i) (tfs ! fst e)]"
  from Cons.prems(3) have pe: "?P e"
    by (cases "?P e") simp_all
  show ?case
  proof (cases p)
    case 0
    have "fst e \<notin> fst ` set (takeWhile ?P rest)"
      using Cons.prems(1) by (auto dest: set_takeWhileD)
    then have "assign_loop upd rest (i + 1) ?tfs ! fst e = ?tfs ! fst e"
      by (rule assign_loop_outside)
    then show ?thesis
      using 0 pe Cons.prems(2) by (simp add: assms)
  next
    case (Suc q)
    have "get (assign_loop upd rest (i + 1) ?tfs ! fst (takeWhile ?P rest ! q)) = of_nat (i + 1 + q)"
      using Cons.prems Suc pe by (intro Cons.IH) simp_all
    then show ?thesis
      using Suc pe by simp
  qed
qed


lemma compare_idx_le: "compare_idx a b \<le> 0 \<longleftrightarrow> snd a \<le> snd b"
  by (auto simp: compare_idx_def)

lemma NOTILE_top: "NOTILE \<le> (v :: 32 word) \<Longrightarrow> v = NOTILE"
  by (simp add: NOTILE_def word_order.extremum_unique)

lemma sorted_tail_NOTILE:
  assumes "sorted_wrt (\<lambda>a b. snd a \<le> snd b) (L :: IDXLIST list)"
  shows "\<forall>e\<in>set (dropWhile (\<lambda>e. snd e \<noteq> NOTILE) L). snd e = NOTILE"
proof (cases "dropWhile (\<lambda>e. snd e \<noteq> NOTILE) L")
  case Nil
  then show ?thesis by (simp only: set_simps ball_empty)
next
  case (Cons h t)
  have h: "snd h = NOTILE"
    using hd_dropWhile [of "\<lambda>e. snd e \<noteq> NOTILE" L] Cons by simp
  have "sorted_wrt (\<lambda>a b. snd a \<le> snd b) (takeWhile (\<lambda>e. snd e \<noteq> NOTILE) L @ h # t)"
    using assms Cons by (metis takeWhile_dropWhile_id)
  then have "\<forall>e\<in>set t. snd h \<le> snd e"
    by (simp add: sorted_wrt_append)
  then show ?thesis
    using h Cons by (auto dest: NOTILE_top)
qed

lemma rank_not_NOTILE: "p < 2 ^ 32 - 1 \<Longrightarrow> (word_of_nat p :: 32 word) \<noteq> NOTILE"
proof
  assume p: "p < 2 ^ 32 - 1" and e: "(word_of_nat p :: 32 word) = NOTILE"
  have "unat NOTILE = p"
    using e p by (intro of_nat_inverse) simp_all
  moreover have "unat NOTILE = 2 ^ 32 - 1"
    by (simp add: NOTILE_def unsigned_minus_1_eq_mask mask_eq_exp_minus_1)
  ultimately show False using p by simp
qed


lemma converted_column:
  fixes get :: "TILEFILESPEC \<Rightarrow> 32 word"
  assumes qs: "qsort_contract qs" and n: "length tfs < 2 ^ 32"
    and gu: "\<And>v r. get (upd v r) = v"
  shows "mset (real_indices (map get
            (assign_loop upd (qs (map (\<lambda>i. (i, get (tfs ! i))) [0..<length tfs])) 0 tfs)))
         = mset (map word_of_nat [0..<length (real_indices (map get tfs))])"
proof -
  let ?n = "length tfs"
  let ?I = "map (\<lambda>i. (i, get (tfs ! i))) [0..<?n]"
  let ?L = "qs ?I"
  let ?P = "\<lambda>e::IDXLIST. snd e \<noteq> NOTILE"
  let ?A = "takeWhile ?P ?L"
  let ?B = "dropWhile ?P ?L"
  let ?res = "assign_loop upd ?L 0 tfs"
  let ?f = "\<lambda>e::IDXLIST. get (?res ! fst e)"
  have perm: "mset ?L = mset ?I"
    using qs by (simp add: qsort_contract_def)
  have srt: "sorted_wrt (\<lambda>a b. snd a \<le> snd b) ?L"
    using qs by (simp add: qsort_contract_def compare_idx_le)
  have setL: "set ?L = set ?I"
    using perm by (rule mset_eq_setD)
  have fstI: "map fst ?I = [0..<?n]"
    by (simp add: comp_def map_idI)
  have sndI: "map snd ?I = map get tfs"
    by (intro nth_equalityI) simp_all
  have "mset (map fst ?L) = mset (map fst ?I)"
    unfolding mset_map perm by (rule refl)
  then have fstL: "mset (map fst ?L) = mset [0..<?n]"
    unfolding fstI .
  have "mset (map snd ?L) = mset (map snd ?I)"
    unfolding mset_map perm by (rule refl)
  then have sndL: "mset (map snd ?L) = mset (map get tfs)"
    unfolding sndI .
  have dist: "distinct (map fst ?L)"
    using mset_eq_imp_distinct_iff [OF fstL] by simp
  have elems: "\<forall>e\<in>set ?L. fst e < ?n \<and> snd e = get (tfs ! fst e)"
    unfolding setL by auto
  have bound: "\<forall>e\<in>set ?L. fst e < length tfs"
    using elems by blast
  have lenL: "length ?L = ?n"
    using mset_eq_length [OF perm] by simp
  have lenres: "length ?res = ?n"
    by (rule assign_loop_length)
  have split: "?L = ?A @ ?B"
    by simp
  have lenA: "length ?A \<le> ?n"
    using lenL length_takeWhile_le [of ?P ?L] by simp
  have Bnot: "\<forall>e\<in>set ?B. snd e = NOTILE"
    using srt by (rule sorted_tail_NOTILE)
  have Apos: "\<forall>e\<in>set ?A. snd e \<noteq> NOTILE"
    by (auto dest: set_takeWhileD)
  have colres: "mset (map get ?res) = mset (map ?f ?L)"
  proof -
    have "map get ?res = map (\<lambda>j. get (?res ! j)) [0..<?n]"
      using lenres by (intro nth_equalityI) simp_all
    then have "mset (map get ?res) = image_mset (\<lambda>j. get (?res ! j)) (mset [0..<?n])"
      by simp
    also have "\<dots> = image_mset (\<lambda>j. get (?res ! j)) (mset (map fst ?L))"
      using fstL by simp
    also have "\<dots> = mset (map ?f ?L)"
      by (simp add: multiset.map_comp comp_def)
    finally show ?thesis .
  qed
  have Apart: "map ?f ?A = map word_of_nat [0..<length ?A]"
  proof (rule nth_equalityI)
    show "length (map ?f ?A) = length (map word_of_nat [0..<length ?A] :: 32 word list)"
      by simp
  next
    fix p assume "p < length (map ?f ?A)"
    then have p: "p < length ?A" by simp
    have "get (?res ! fst (?A ! p)) = word_of_nat (0 + p)"
      using dist bound p by (rule assign_loop_ranks [OF gu])
    then show "map ?f ?A ! p = (map word_of_nat [0..<length ?A] :: 32 word list) ! p"
      using p by simp
  qed
  have Bpart: "\<forall>e\<in>set ?B. ?f e = NOTILE"
  proof
    fix e assume e: "e \<in> set ?B"
    have "distinct (map fst ?A @ map fst ?B)"
      using dist by (simp only: map_append [symmetric] takeWhile_dropWhile_id)
    then have "fst e \<notin> fst ` set ?A"
      using e by auto
    then have r: "?res ! fst e = tfs ! fst e"
      by (rule assign_loop_outside)
    have "e \<in> set ?L"
      using e by (rule set_dropWhileD)
    then have s1: "get (tfs ! fst e) = snd e"
      using elems by (simp only:)
    have s2: "snd e = NOTILE"
      using Bnot e by blast
    have "get (?res ! fst e) = get (tfs ! fst e)"
      by (simp only: r)
    also note s1
    also note s2
    finally show "?f e = NOTILE" .
  qed
  have ranks: "\<forall>v\<in>set (map word_of_nat [0..<length ?A] :: 32 word list). v \<noteq> NOTILE"
  proof
    fix v :: "32 word" assume "v \<in> set (map word_of_nat [0..<length ?A])"
    then obtain p where p: "p < length ?A" "v = word_of_nat p" by auto
    then have "p < 2 ^ 32 - 1" using lenA n by simp
    then show "v \<noteq> NOTILE" using p(2) rank_not_NOTILE by simp
  qed
  have "mset (real_indices (map get ?res))
      = filter_mset (\<lambda>v. v \<noteq> NOTILE) (mset (map ?f ?L))"
    by (simp only: real_indices_def mset_filter colres)
  also have "mset (map ?f ?L) = mset (map ?f ?A) + mset (map ?f ?B)"
    by (simp only: mset_append [symmetric] map_append [symmetric] takeWhile_dropWhile_id)
  also have "filter_mset (\<lambda>v. v \<noteq> NOTILE) (mset (map ?f ?A) + mset (map ?f ?B))
      = mset (filter (\<lambda>v. v \<noteq> NOTILE) (map ?f ?A))
        + mset (filter (\<lambda>v. v \<noteq> NOTILE) (map ?f ?B))"
    by simp
  also have "filter (\<lambda>v. v \<noteq> NOTILE) (map ?f ?B) = []"
    using Bpart by (simp add: filter_empty_conv)
  also have "filter (\<lambda>v. v \<noteq> NOTILE) (map ?f ?A) = map word_of_nat [0..<length ?A]"
    unfolding Apart using ranks by (simp only: filter_True)
  finally have main: "mset (real_indices (map get ?res))
      = mset (map word_of_nat [0..<length ?A])"
    by simp
  have "length (real_indices (map get tfs))
      = size (filter_mset (\<lambda>v. v \<noteq> NOTILE) (mset (map get tfs)))"
    by (simp only: real_indices_def mset_filter [symmetric] size_mset)
  also have "mset (map get tfs) = mset (map snd ?A) + mset (map snd ?B)"
    unfolding sndL [symmetric]
    by (simp only: mset_append [symmetric] map_append [symmetric] takeWhile_dropWhile_id)
  also have "filter_mset (\<lambda>v. v \<noteq> NOTILE) (mset (map snd ?A) + mset (map snd ?B))
      = mset (filter (\<lambda>v. v \<noteq> NOTILE) (map snd ?A))
        + mset (filter (\<lambda>v. v \<noteq> NOTILE) (map snd ?B))"
    by simp
  also have "filter (\<lambda>v. v \<noteq> NOTILE) (map snd ?B) = []"
  proof -
    have "\<forall>x\<in>set (map snd ?B). \<not> x \<noteq> NOTILE"
      using Bnot unfolding set_map by blast
    then show ?thesis
      by (simp only: filter_empty_conv)
  qed
  also have "filter (\<lambda>v. v \<noteq> NOTILE) (map snd ?A) = map snd ?A"
    using Apos by (intro filter_True) auto
  finally have "length (real_indices (map get tfs)) = length ?A"
    by simp
  then show ?thesis
    using main by simp
qed


lemma qsort_contract_sort_key: "qsort_contract (sort_key snd)"
proof -
  have "sorted_wrt (\<lambda>a b. snd a \<le> snd b) (sort_key snd xs)" for xs :: "IDXLIST list"
    using sorted_sort_key [of snd xs] by (simp only: sorted_map)
  then show ?thesis
    by (simp add: qsort_contract_def compare_idx_le)
qed

lemma convert_offsets_columns:
  assumes qs: "qsort_contract qs" and n: "length tfs < 2 ^ 32"
  shows "mset (real_indices (map sidx (convert_offsets qs tfs)))
           = mset (map word_of_nat [0..<length (real_indices (map sidx tfs))])"
    and "mset (real_indices (map midx (convert_offsets qs tfs)))
           = mset (map word_of_nat [0..<length (real_indices (map midx tfs))])"
proof -
  let ?L = "qs (map (\<lambda>i. (i, sidx (tfs ! i))) [0..<length tfs])"
  let ?tfs1 = "assign_loop (\<lambda>v r. r\<lparr>sidx := v\<rparr>) ?L 0 tfs"
  let ?L' = "qs (map (\<lambda>i. (i, midx (?tfs1 ! i))) [0..<length tfs])"
  let ?tfs2 = "assign_loop (\<lambda>v r. r\<lparr>midx := v\<rparr>) ?L' 0 ?tfs1"
  have len1: "length ?tfs1 = length tfs"
    by (rule assign_loop_length)
  have c: "convert_offsets qs tfs = ?tfs2"
    by (simp add: convert_offsets_def Let_def)
  have s1: "mset (real_indices (map sidx ?tfs1))
           = mset (map word_of_nat [0..<length (real_indices (map sidx tfs))])"
    using qs n by (rule converted_column) simp
  have "map sidx ?tfs2 = map sidx ?tfs1"
    by (rule assign_loop_frame) simp
  then show "mset (real_indices (map sidx (convert_offsets qs tfs)))
           = mset (map word_of_nat [0..<length (real_indices (map sidx tfs))])"
    using s1 unfolding c by (simp only:)
  have m0: "map midx ?tfs1 = map midx tfs"
    by (rule assign_loop_frame) simp
  have "mset (real_indices (map midx
            (assign_loop (\<lambda>v r. r\<lparr>midx := v\<rparr>)
               (qs (map (\<lambda>i. (i, midx (?tfs1 ! i))) [0..<length ?tfs1])) 0 ?tfs1)))
         = mset (map word_of_nat [0..<length (real_indices (map midx ?tfs1))])"
    using qs n by (intro converted_column) (simp_all only: len1, simp)
  then show "mset (real_indices (map midx (convert_offsets qs tfs)))
           = mset (map word_of_nat [0..<length (real_indices (map midx tfs))])"
    unfolding c len1 m0 .
qed

text \<open>
  Claim C8, as stated, fails when two records share a surface index: they get two
  different ranks, so the values after the conversion are 0 and 1, while the file holds a
  single surface index.
\<close>

theorem convert_offsets_shared_index_counterexample:
  "qsort_contract (sort_key snd)
   \<and> card (set (real_indices (map sidx
        [\<lparr>sidx = 5, midx = NOTILE, flags = 1, subidx = [0, 0, 0, 0]\<rparr>,
         \<lparr>sidx = 5, midx = NOTILE, flags = 1, subidx = [0, 0, 0, 0]\<rparr>]))) = 1
   \<and> map sidx (fst (LoadTileData_convert True 1 (sort_key snd)
        [\<lparr>sidx = 5, midx = NOTILE, flags = 1, subidx = [0, 0, 0, 0]\<rparr>,
         \<lparr>sidx = 5, midx = NOTILE, flags = 1, subidx = [0, 0, 0, 0]\<rparr>]))
     = [0, 1]"
  by (simp add: qsort_contract_sort_key LoadTileData_convert_def convert_offsets_def
      real_indices_def NOTILE_def upt_rec)


text \<open>
  Claim C8, amended. With preloading on and a table of version 1 or later, the surface
  indices other than \<open>NOTILE\<close> are, after the conversion, the numbers \<open>0, \<dots>, m - 1\<close>,
  each once, where \<open>m\<close> is the number of records whose surface index is not \<open>NOTILE\<close>;
  likewise for the mask indices. \<open>m\<close> is the number of different surface indices of the
  file when no two records share one. This holds for every order in which \<open>qsort\<close> leaves
  records with equal keys.
\<close>

theorem convert_offsets_dense:
  assumes "qsort_contract qs" and "length tfs < 2 ^ 32"
  shows "LoadTileData_convert True (Suc v) qs tfs = (convert_offsets qs tfs, 0)
       \<and> mset (real_indices (map sidx (convert_offsets qs tfs)))
           = mset (map word_of_nat [0..<length (real_indices (map sidx tfs))])
       \<and> mset (real_indices (map midx (convert_offsets qs tfs)))
           = mset (map word_of_nat [0..<length (real_indices (map midx tfs))])
       \<and> (distinct (real_indices (map sidx tfs)) \<longrightarrow>
            length (real_indices (map sidx tfs)) = card (set (real_indices (map sidx tfs))))
       \<and> (distinct (real_indices (map midx tfs)) \<longrightarrow>
            length (real_indices (map midx tfs)) = card (set (real_indices (map midx tfs))))"
  using convert_offsets_columns [OF assms]
  by (simp add: LoadTileData_convert_def distinct_card)

theorem convert_offsets_dense_witness:
  "qsort_contract (sort_key snd)
   \<and> length [\<lparr>sidx = 70000, midx = NOTILE, flags = 1, subidx = [0, 0, 0, 0]\<rparr>,
              \<lparr>sidx = NOTILE, midx = NOTILE, flags = 0, subidx = [0, 0, 0, 2]\<rparr>,
              \<lparr>sidx = 100, midx = 0, flags = 4, subidx = [0, 0, 0, 0]\<rparr>] < (2::nat) ^ 32
   \<and> distinct (real_indices (map sidx
             [\<lparr>sidx = 70000, midx = NOTILE, flags = 1, subidx = [0, 0, 0, 0]\<rparr>,
              \<lparr>sidx = NOTILE, midx = NOTILE, flags = 0, subidx = [0, 0, 0, 2]\<rparr>,
              \<lparr>sidx = 100, midx = 0, flags = 4, subidx = [0, 0, 0, 0]\<rparr>]))
   \<and> mset (real_indices (map sidx (convert_offsets (sort_key snd)
             [\<lparr>sidx = 70000, midx = NOTILE, flags = 1, subidx = [0, 0, 0, 0]\<rparr>,
              \<lparr>sidx = NOTILE, midx = NOTILE, flags = 0, subidx = [0, 0, 0, 2]\<rparr>,
              \<lparr>sidx = 100, midx = 0, flags = 4, subidx = [0, 0, 0, 0]\<rparr>])))
     = mset [0, 1]"
proof -
  let ?T = "[\<lparr>sidx = 70000, midx = NOTILE, flags = 1, subidx = [0, 0, 0, 0]\<rparr>,
             \<lparr>sidx = NOTILE, midx = NOTILE, flags = 0, subidx = [0, 0, 0, 2]\<rparr>,
             \<lparr>sidx = 100, midx = 0, flags = 4, subidx = [0, 0, 0, 0 :: 32 word]\<rparr>]"
  have h1: "qsort_contract (sort_key snd)"
    by (rule qsort_contract_sort_key)
  have h2: "length ?T < (2::nat) ^ 32"
    by simp
  have r: "real_indices (map sidx ?T) = [70000, 100]"
    by (simp add: real_indices_def NOTILE_def)
  have h3: "distinct (real_indices (map sidx ?T))"
    unfolding r by simp
  have "mset (real_indices (map sidx (convert_offsets (sort_key snd) ?T)))
      = mset (map word_of_nat [0..<length (real_indices (map sidx ?T))])"
    using convert_offsets_dense [OF h1 h2, of 0] by blast
  also have "\<dots> = mset [0, 1]"
    unfolding r by (simp add: upt_rec)
  finally show ?thesis
    using h1 h2 h3 by blast
qed

subsection \<open>The mesh of a sphere patch\<close>

lemma vtx_row_length:
  "int (length (vtx_row nseg i j V)) = int (length V) + max 0 (nseg + 1 - j)"
proof (induction nseg i j V rule: vtx_row.induct)
  case (1 nseg i j V)
  show ?case
  proof (cases "j \<le> nseg")
    case True
    then show ?thesis
      using "1.IH" by (subst vtx_row.simps) simp
  next
    case False
    then show ?thesis
      by (subst vtx_row.simps) simp
  qed
qed

lemma vtx_loop_step:
  "i \<le> res \<Longrightarrow> vtx_loop res bseg reduce i V
     = vtx_loop res bseg reduce (i + 1) (vtx_row (if reduce then bseg - i else bseg) i 0 V)"
  by (subst vtx_loop.simps) simp

lemma vtx_loop_done: "res < i \<Longrightarrow> vtx_loop res bseg reduce i V = V"
  by (subst vtx_loop.simps) simp

lemma vtx_loop_extends:
  "length (vtx_loop res bseg reduce i V) = length V + length (vtx_loop res bseg reduce i [])"
proof (induction "nat (res + 1 - i)" arbitrary: i V)
  case 0
  then have "res < i" by simp
  then show ?case by (simp add: vtx_loop_done)
next
  case (Suc k)
  then have le: "i \<le> res" by simp
  let ?nseg = "if reduce then bseg - i else bseg"
  have k: "k = nat (res + 1 - (i + 1))" using Suc.hyps(2) by simp
  have a: "length (vtx_loop res bseg reduce (i + 1) (vtx_row ?nseg i 0 V))
      = length (vtx_row ?nseg i 0 V) + length (vtx_loop res bseg reduce (i + 1) [])"
    using k by (rule Suc.hyps(1))
  have b: "length (vtx_loop res bseg reduce (i + 1) (vtx_row ?nseg i 0 []))
      = length (vtx_row ?nseg i 0 []) + length (vtx_loop res bseg reduce (i + 1) [])"
    using k by (rule Suc.hyps(1))
  have c: "int (length (vtx_row ?nseg i 0 V)) = int (length V) + int (length (vtx_row ?nseg i 0 []))"
    by (simp add: vtx_row_length)
  show ?case
    unfolding vtx_loop_step [OF le] a b using c by linarith
qed

lemma vtx_loop_row:
  assumes "i \<le> res"
  shows "int (length (vtx_loop res bseg reduce i []))
       = max 0 ((if reduce then bseg - i else bseg) + 1)
         + int (length (vtx_loop res bseg reduce (i + 1) []))"
proof -
  let ?nseg = "if reduce then bseg - i else bseg"
  have "length (vtx_loop res bseg reduce i [])
      = length (vtx_row ?nseg i 0 []) + length (vtx_loop res bseg reduce (i + 1) [])"
    unfolding vtx_loop_step [OF assms] by (rule vtx_loop_extends)
  then show ?thesis
    using vtx_row_length [of ?nseg i 0 "[]"] by simp
qed

lemma vtx_count_full:
  assumes "0 \<le> bseg" "i \<le> res + 1"
  shows "int (length (vtx_loop res bseg False i [])) = (res + 1 - i) * (bseg + 1)"
  using assms
proof (induction "nat (res + 1 - i)" arbitrary: i)
  case 0
  then have "res < i" "res + 1 - i = 0" by simp_all
  then show ?case by (simp add: vtx_loop_done)
next
  case (Suc k)
  then have le: "i \<le> res" by simp
  have "int (length (vtx_loop res bseg False (i + 1) [])) = (res + 1 - (i + 1)) * (bseg + 1)"
    using Suc.hyps(2) Suc.prems le by (intro Suc.hyps(1)) simp_all
  then show ?case
    using vtx_loop_row [OF le, of bseg False] Suc.prems by (simp add: algebra_simps)
qed

lemma vtx_count_reduced:
  assumes "res \<le> bseg" "0 \<le> i" "i \<le> res + 1"
  shows "2 * int (length (vtx_loop res bseg True i []))
       = 2 * (res + 1 - i) * (bseg + 1) - (res * (res + 1) - i * (i - 1))"
  using assms
proof (induction "nat (res + 1 - i)" arbitrary: i)
  case 0
  then have "res < i" "i = res + 1" by simp_all
  then show ?case by (simp add: vtx_loop_done algebra_simps)
next
  case (Suc k)
  then have le: "i \<le> res" by simp
  have "2 * int (length (vtx_loop res bseg True (i + 1) []))
      = 2 * (res + 1 - (i + 1)) * (bseg + 1) - (res * (res + 1) - (i + 1) * (i + 1 - 1))"
    using Suc.hyps(2) Suc.prems le by (intro Suc.hyps(1)) simp_all
  moreover have "max 0 (bseg - i + 1) = bseg - i + 1"
    using Suc.prems le by simp
  ultimately show ?case
    using vtx_loop_row [OF le, of bseg True] by (simp add: algebra_simps)
qed


lemma uint_stored_le: "0 \<le> x \<Longrightarrow> uint (word_of_int x :: 16 word) \<le> x"
  by (simp add: uint_word_of_int zmod_le_nonneg_dividend)

lemma face_row_count:
  "0 \<le> j \<Longrightarrow> int (length (face_row reduce nofs0 nofs1 nseg j Ix))
     = int (length Ix) + (if j < nseg then 6 * (nseg - j) - (if reduce then 3 else 0) else 0)"
proof (induction reduce nofs0 nofs1 nseg j Ix rule: face_row.induct)
  case (1 reduce nofs0 nofs1 nseg j Ix)
  show ?case
  proof (cases "j < nseg")
    case False
    then show ?thesis by (subst face_row.simps) simp
  next
    case True
    show ?thesis
    proof (cases "reduce \<and> j = nseg - 1")
      case True
      then show ?thesis
        using \<open>j < nseg\<close> by (subst face_row.simps) (simp add: Let_def)
    next
      case False
      let ?I = "(Ix @ [word_of_int (nofs0 + j), word_of_int (nofs1 + j), word_of_int (nofs0 + j + 1)])
                @ [word_of_int (nofs0 + j + 1), word_of_int (nofs1 + j), word_of_int (nofs1 + j + 1)]"
      have step: "face_row reduce nofs0 nofs1 nseg j Ix = face_row reduce nofs0 nofs1 nseg (j + 1) ?I"
        using True False by (subst face_row.simps) (auto simp: Let_def)
      have "int (length (face_row reduce nofs0 nofs1 nseg (j + 1) ?I))
          = int (length ?I)
            + (if j + 1 < nseg then 6 * (nseg - (j + 1)) - (if reduce then 3 else 0) else 0)"
        using True False "1.prems" by (intro "1.IH") simp_all
      then show ?thesis
        unfolding step using True False by (auto split: if_splits)
    qed
  qed
qed

lemma face_row_bound:
  "0 \<le> j \<Longrightarrow> 0 \<le> nofs0 \<Longrightarrow> nofs0 \<le> nofs1
   \<Longrightarrow> nofs0 + nseg < B \<Longrightarrow> nofs1 + nseg + (if reduce then 0 else 1) \<le> B
   \<Longrightarrow> \<forall>e\<in>set Ix. uint e < B
   \<Longrightarrow> \<forall>e\<in>set (face_row reduce nofs0 nofs1 nseg j Ix). uint e < B"
proof (induction reduce nofs0 nofs1 nseg j Ix rule: face_row.induct)
  case (1 reduce nofs0 nofs1 nseg j Ix)
  show ?case
  proof (cases "j < nseg")
    case False
    then show ?thesis using "1.prems" by (subst face_row.simps) simp
  next
    case True
    have a: "uint (word_of_int (nofs0 + j) :: 16 word) < B"
      using uint_stored_le [of "nofs0 + j"] "1.prems" True by simp
    have b: "uint (word_of_int (nofs1 + j) :: 16 word) < B"
      using uint_stored_le [of "nofs1 + j"] "1.prems" True by (simp split: if_splits)
    have c: "uint (word_of_int (nofs0 + j + 1) :: 16 word) < B"
      using uint_stored_le [of "nofs0 + j + 1"] "1.prems" True by simp
    let ?I1 = "Ix @ [word_of_int (nofs0 + j), word_of_int (nofs1 + j), word_of_int (nofs0 + j + 1)]"
    have I1: "\<forall>e\<in>set ?I1. uint e < B"
      using a b c "1.prems"(6) by simp
    show ?thesis
    proof (cases "reduce \<and> j = nseg - 1")
      case True
      then have "face_row reduce nofs0 nofs1 nseg j Ix = ?I1"
        using \<open>j < nseg\<close> by (subst face_row.simps) (simp add: Let_def)
      then show ?thesis using I1 by (simp only:)
    next
      case False
      have d: "uint (word_of_int (nofs1 + j + 1) :: 16 word) < B"
        using uint_stored_le [of "nofs1 + j + 1"] "1.prems" True False
        by (simp split: if_splits)
      let ?I = "?I1 @ [word_of_int (nofs0 + j + 1), word_of_int (nofs1 + j), word_of_int (nofs1 + j + 1)]"
      have step: "face_row reduce nofs0 nofs1 nseg j Ix = face_row reduce nofs0 nofs1 nseg (j + 1) ?I"
        using True False by (subst face_row.simps) (auto simp: Let_def)
      have I: "\<forall>e\<in>set ?I. uint e < B"
        using I1 b c d by simp
      have "\<forall>e\<in>set (face_row reduce nofs0 nofs1 nseg (j + 1) ?I). uint e < B"
        using True False "1.prems"(1-5) I by (intro "1.IH") simp_all
      then show ?thesis
        unfolding step .
    qed
  qed
qed


lemma face_loop_step:
  "i < res \<Longrightarrow> face_loop res bseg reduce i nofs0 Ix
     = face_loop res bseg reduce (i + 1) (nofs0 + (if reduce then bseg - i else bseg) + 1)
         (face_row reduce nofs0 (nofs0 + (if reduce then bseg - i else bseg) + 1)
            (if reduce then bseg - i else bseg) 0 Ix)"
  by (subst face_loop.simps) (simp add: Let_def)

lemma face_loop_done: "res \<le> i \<Longrightarrow> face_loop res bseg reduce i nofs0 Ix = Ix"
  by (subst face_loop.simps) simp

lemma face_loop_bound:
  assumes valid: "0 \<le> bseg" "reduce \<longrightarrow> res \<le> bseg"
  shows "0 \<le> i \<Longrightarrow> 0 \<le> nofs0
     \<Longrightarrow> nofs0 + int (length (vtx_loop res bseg reduce i [])) = N
     \<Longrightarrow> \<forall>e\<in>set Ix. uint e < N
     \<Longrightarrow> \<forall>e\<in>set (face_loop res bseg reduce i nofs0 Ix). uint e < N"
proof (induction "nat (res - i)" arbitrary: i nofs0 Ix)
  case 0
  then have "res \<le> i" by simp
  then show ?case using "0.prems" by (simp add: face_loop_done)
next
  case (Suc k)
  then have lt: "i < res" by simp
  let ?nseg = "if reduce then bseg - i else bseg"
  let ?nseg' = "if reduce then bseg - (i + 1) else bseg"
  let ?nofs1 = "nofs0 + ?nseg + 1"
  have nseg: "0 \<le> ?nseg"
    using valid lt by auto
  have row: "int (length (vtx_loop res bseg reduce i []))
      = ?nseg + 1 + int (length (vtx_loop res bseg reduce (i + 1) []))"
    using vtx_loop_row [of i res bseg reduce] lt nseg by simp
  have row': "?nseg' + 1 \<le> int (length (vtx_loop res bseg reduce (i + 1) []))"
    using vtx_loop_row [of "i + 1" res bseg reduce] lt by simp
  have inv: "?nofs1 + int (length (vtx_loop res bseg reduce (i + 1) [])) = N"
    using Suc.prems(3) row by simp
  have b1: "nofs0 + ?nseg < N"
    using inv row' valid lt by (simp split: if_splits)
  have b2: "?nofs1 + ?nseg + (if reduce then 0 else 1) \<le> N"
    using inv row' by (simp split: if_splits)
  have r: "\<forall>e\<in>set (face_row reduce nofs0 ?nofs1 ?nseg 0 Ix). uint e < N"
    using Suc.prems(2) nseg b1 b2 Suc.prems(4) by (intro face_row_bound) simp_all
  have "\<forall>e\<in>set (face_loop res bseg reduce (i + 1) ?nofs1
                    (face_row reduce nofs0 ?nofs1 ?nseg 0 Ix)). uint e < N"
    using Suc.hyps(2) Suc.prems(1,2) nseg inv r by (intro Suc.hyps(1)) simp_all
  then show ?case
    unfolding face_loop_step [OF lt] .
qed

lemma face_count_full:
  assumes "0 \<le> bseg" "i \<le> res"
  shows "int (length (face_loop res bseg False i nofs0 Ix))
       = int (length Ix) + 6 * bseg * (res - i)"
  using assms
proof (induction "nat (res - i)" arbitrary: i nofs0 Ix)
  case 0
  then have "res \<le> i" "res - i = 0" by simp_all
  then show ?case by (simp add: face_loop_done)
next
  case (Suc k)
  then have lt: "i < res" by simp
  have "int (length (face_loop res bseg False (i + 1) (nofs0 + bseg + 1)
                       (face_row False nofs0 (nofs0 + bseg + 1) bseg 0 Ix)))
      = int (length (face_row False nofs0 (nofs0 + bseg + 1) bseg 0 Ix))
        + 6 * bseg * (res - (i + 1))"
    using Suc.hyps(2) Suc.prems lt by (intro Suc.hyps(1)) simp_all
  moreover have "int (length (face_row False nofs0 (nofs0 + bseg + 1) bseg 0 Ix))
      = int (length Ix) + 6 * bseg"
    using face_row_count [of 0 False nofs0 "nofs0 + bseg + 1" bseg Ix] Suc.prems by simp
  ultimately show ?case
    using face_loop_step [OF lt, of bseg False nofs0 Ix] by (simp add: algebra_simps)
qed

lemma face_count_reduced:
  assumes "res \<le> bseg" "0 \<le> i" "i \<le> res"
  shows "int (length (face_loop res bseg True i nofs0 Ix))
       = int (length Ix) + 6 * bseg * (res - i) - 3 * (res * (res - 1) - i * (i - 1))
         - 3 * (res - i)"
  using assms
proof (induction "nat (res - i)" arbitrary: i nofs0 Ix)
  case 0
  then have "i = res" by simp
  then show ?case by (simp add: face_loop_done)
next
  case (Suc k)
  then have lt: "i < res" by simp
  let ?nofs1 = "nofs0 + (bseg - i) + 1"
  let ?row = "face_row True nofs0 ?nofs1 (bseg - i) 0 Ix"
  have "int (length (face_loop res bseg True (i + 1) ?nofs1 ?row))
      = int (length ?row) + 6 * bseg * (res - (i + 1))
        - 3 * (res * (res - 1) - (i + 1) * (i + 1 - 1)) - 3 * (res - (i + 1))"
    using Suc.hyps(2) Suc.prems lt by (intro Suc.hyps(1)) simp_all
  moreover have "int (length ?row) = int (length Ix) + 6 * (bseg - i) - 3"
    using face_row_count [of 0 True nofs0 ?nofs1 "bseg - i" Ix] Suc.prems lt by simp
  ultimately show ?case
    using face_loop_step [OF lt, of bseg True nofs0 Ix] by (simp add: algebra_simps)
qed


lemma swap_loop_ok:
  "0 \<le> i \<Longrightarrow> n \<le> int (length Ix)
   \<Longrightarrow> \<exists>Ix'. swap_loop n i Ix = Inr Ix' \<and> length Ix' = length Ix \<and> set Ix' = set Ix"
proof (induction "nat (n div 3 - i)" arbitrary: i Ix rule: less_induct)
  case less
  show ?case
  proof (cases "i < n div 3")
    case False
    then show ?thesis by (subst swap_loop.simps) simp
  next
    case lt: True
    then have "3 * (i + 1) \<le> n" by simp
    then have inb: "i + 2 < int (length Ix)"
      using less.prems by simp
    let ?Ix = "Ix[nat (i + 1) := Ix ! nat (i + 2), nat (i + 2) := Ix ! nat (i + 1)]"
    have step: "swap_loop n i Ix = swap_loop n (i + 3) ?Ix"
      using lt inb less.prems(1) by (subst swap_loop.simps) simp
    have s: "set ?Ix = set Ix"
      using inb less.prems(1) by (intro set_swap) simp_all
    have "\<exists>Ix'. swap_loop n (i + 3) ?Ix = Inr Ix' \<and> length Ix' = length ?Ix \<and> set Ix' = set ?Ix"
      using lt less.prems by (intro less.hyps) simp_all
    then show ?thesis
      unfolding step s by simp
  qed
qed

lemma half_of_consecutive: "2 * (((r + 1) * r) div 2) = (r + 1) * (r :: int)"
proof -
  have "even ((r + 1) * r)" by simp
  then show ?thesis by simp
qed

text \<open>
  With valid arguments every product and sum that \<open>CreateSpherePatch\<close> forms for the
  sizes of its arrays is in the range of \<open>int\<close>, so the 32-bit arithmetic of the code
  computes the values of the model.
\<close>

lemma patch_products:
  fixes b res :: int
  assumes "0 \<le> b" "1 \<le> res" "6 * ((b + 1) * (res + 1)) \<le> N"
  shows "(b + 1) * (res + 1) \<le> N" "6 * (res * b) \<le> N" "(res + 1) * res \<le> 6 * ((b + 1) * (res + 1)) \<or> b < res"
    "2 * res \<le> N" "2 * b \<le> N" "0 \<le> (b + 1) * (res + 1)"
proof -
  have p: "0 \<le> (b + 1) * (res + 1)" using assms(1,2) by simp
  then show "0 \<le> (b + 1) * (res + 1)" .
  show "(b + 1) * (res + 1) \<le> N" using p assms(3) by simp
  have rb: "res * b \<le> (res + 1) * (b + 1)"
    using assms(1,2) by (intro mult_mono) simp_all
  then show "6 * (res * b) \<le> N" using assms(3) by (simp add: mult.commute)
  have r1: "res + 1 \<le> (b + 1) * (res + 1)"
    using assms(1,2) by (simp add: algebra_simps)
  have b1: "b + 1 \<le> (b + 1) * (res + 1)"
    using assms(1,2) by (simp add: algebra_simps)
  show "2 * res \<le> N" using r1 p assms(3) by simp
  show "2 * b \<le> N" using b1 p assms(3) by simp
  show "(res + 1) * res \<le> 6 * ((b + 1) * (res + 1)) \<or> b < res"
  proof (cases "b < res")
    case False
    then have "(res + 1) * res \<le> (res + 1) * (b + 1)"
      using assms(2) by (intro mult_left_mono) simp_all
    then show ?thesis using p by (simp add: mult.commute)
  qed simp
qed

lemma CreateSpherePatch_int_range:
  assumes "valid_patch nlat ilat res bseg0 reduce"
  shows "0 < nlat - ilat \<and> nlat - ilat \<le> INT_MAX"
    and "0 \<le> effective_bseg nlat ilat res bseg0
         \<and> effective_bseg nlat ilat res bseg0 \<le> INT_MAX"
    and "0 \<le> (effective_bseg nlat ilat res bseg0 + 1) * (res + 1)
         \<and> (effective_bseg nlat ilat res bseg0 + 1) * (res + 1) \<le> INT_MAX"
    and "reduce \<longrightarrow> 0 \<le> (res + 1) * res \<and> (res + 1) * res \<le> INT_MAX"
    and "reduce \<longrightarrow> 0 \<le> 2 * effective_bseg nlat ilat res bseg0 - res
           \<and> 2 * effective_bseg nlat ilat res bseg0 \<le> INT_MAX
           \<and> 0 \<le> res * (2 * effective_bseg nlat ilat res bseg0 - res)
           \<and> res * (2 * effective_bseg nlat ilat res bseg0 - res) * 3 \<le> INT_MAX"
    and "0 \<le> 2 * res \<and> 2 * res \<le> INT_MAX
         \<and> 0 \<le> 2 * res * effective_bseg nlat ilat res bseg0
         \<and> 2 * res * effective_bseg nlat ilat res bseg0 * 3 \<le> INT_MAX"
proof -
  define b where "b = effective_bseg nlat ilat res bseg0"
  have v: "0 \<le> b" "1 \<le> res" "reduce \<longrightarrow> res \<le> b" "6 * ((b + 1) * (res + 1)) \<le> INT_MAX"
    "0 \<le> ilat" "ilat < nlat" "nlat \<le> INT_MAX"
    using assms by (simp_all add: valid_patch_def b_def)
  note pp = patch_products [OF v(1,2,4)]
  show "0 < nlat - ilat \<and> nlat - ilat \<le> INT_MAX"
    using v(5-7) by simp
  have "b \<le> 2 * b" using v(1) by simp
  then show "0 \<le> effective_bseg nlat ilat res bseg0
         \<and> effective_bseg nlat ilat res bseg0 \<le> INT_MAX"
    using v(1) pp(5) unfolding b_def by simp
  show "0 \<le> (effective_bseg nlat ilat res bseg0 + 1) * (res + 1)
         \<and> (effective_bseg nlat ilat res bseg0 + 1) * (res + 1) \<le> INT_MAX"
    using pp(1,6) unfolding b_def by simp
  show "reduce \<longrightarrow> 0 \<le> (res + 1) * res \<and> (res + 1) * res \<le> INT_MAX"
  proof
    assume reduce
    then have "\<not> b < res" using v(3) by simp
    then have "(res + 1) * res \<le> 6 * ((b + 1) * (res + 1))" using pp(3) by blast
    then have "(res + 1) * res \<le> INT_MAX" using v(4) by (rule order_trans)
    moreover have "0 \<le> (res + 1) * res" using v(2) by simp
    ultimately show "0 \<le> (res + 1) * res \<and> (res + 1) * res \<le> INT_MAX" by simp
  qed
  have rb: "0 \<le> res * b" using v(1,2) by simp
  show "reduce \<longrightarrow> 0 \<le> 2 * effective_bseg nlat ilat res bseg0 - res
           \<and> 2 * effective_bseg nlat ilat res bseg0 \<le> INT_MAX
           \<and> 0 \<le> res * (2 * effective_bseg nlat ilat res bseg0 - res)
           \<and> res * (2 * effective_bseg nlat ilat res bseg0 - res) * 3 \<le> INT_MAX"
  proof
    assume reduce
    then have le: "res \<le> b" using v(3) by simp
    have a: "0 \<le> 2 * b - res" using le v(1) by simp
    have c: "0 \<le> res * (2 * b - res)" using a v(2) by simp
    have "res * (2 * b - res) \<le> res * (2 * b)"
      using v(2) by (intro mult_left_mono) simp_all
    then have d: "res * (2 * b - res) * 3 \<le> INT_MAX"
      using pp(2) by simp
    show "0 \<le> 2 * effective_bseg nlat ilat res bseg0 - res
           \<and> 2 * effective_bseg nlat ilat res bseg0 \<le> INT_MAX
           \<and> 0 \<le> res * (2 * effective_bseg nlat ilat res bseg0 - res)
           \<and> res * (2 * effective_bseg nlat ilat res bseg0 - res) * 3 \<le> INT_MAX"
      using a c d pp(5) unfolding b_def by simp
  qed
  show "0 \<le> 2 * res \<and> 2 * res \<le> INT_MAX
         \<and> 0 \<le> 2 * res * effective_bseg nlat ilat res bseg0
         \<and> 2 * res * effective_bseg nlat ilat res bseg0 * 3 \<le> INT_MAX"
    using v(2) pp(4) pp(2) rb unfolding b_def by simp
qed

text \<open>
  Claim C9. For valid arguments \<open>CreateSpherePatch\<close> runs to its end; with \<open>bseg\<close> after
  its default, \<open>mesh.nVtx\<close> is \<open>(bseg+1)\<cdot>(res+1)\<close>, less \<open>((res+1)\<cdot>res)/2\<close> for a
  reduced patch; both array sizes are in the range of \<open>int\<close>; the loops write exactly
  \<open>nVtx\<close> vertices and exactly \<open>nIdx\<close> indices, so every write is inside its array; and
  every entry of the index array is below \<open>nVtx\<close>.
\<close>

theorem CreateSpherePatch_mesh:
  assumes "valid_patch nlat ilat res bseg0 reduce"
  shows "\<exists>m. CreateSpherePatch nlng nlat ilat res bseg0 reduce outside = Inr m
       \<and> nVtx m = (effective_bseg nlat ilat res bseg0 + 1) * (res + 1)
                    - (if reduce then ((res + 1) * res) div 2 else 0)
       \<and> nIdx m = (if reduce then res * (2 * effective_bseg nlat ilat res bseg0 - res)
                     else 2 * res * effective_bseg nlat ilat res bseg0) * 3
       \<and> int (length (Vtx m)) = nVtx m
       \<and> int (length (Idx m)) = nIdx m
       \<and> (\<forall>e\<in>set (Idx m). uint e < nVtx m)
       \<and> 0 < nVtx m \<and> nVtx m \<le> INT_MAX \<and> 0 \<le> nIdx m \<and> nIdx m \<le> INT_MAX"
proof -
  define b where "b = effective_bseg nlat ilat res bseg0"
  define nv where "nv = (b + 1) * (res + 1) - (if reduce then ((res + 1) * res) div 2 else 0)"
  define ni where "ni = (if reduce then res * (2 * b - res) else 2 * res * b) * 3"
  define vs where "vs = vtx_loop res b reduce 0 []"
  define fs where "fs = face_loop res b reduce 0 0 []"
  have v: "0 \<le> b" "1 \<le> res" "reduce \<longrightarrow> res \<le> b"
    using assms by (simp_all add: valid_patch_def b_def)
  note rng = CreateSpherePatch_int_range [OF assms, folded b_def]
  have lenv: "int (length vs) = nv"
  proof (cases reduce)
    case True
    then have r: "reduce = True" by simp
    have "2 * int (length vs) = 2 * (res + 1 - 0) * (b + 1) - (res * (res + 1) - 0 * (0 - 1))"
      unfolding vs_def r using True v by (intro vtx_count_reduced) simp_all
    then have "2 * int (length vs) = 2 * ((b + 1) * (res + 1)) - 2 * (((res + 1) * res) div 2)"
      unfolding half_of_consecutive by (simp add: algebra_simps)
    then show ?thesis
      using True by (simp add: nv_def)
  next
    case False
    then have r: "reduce = False" by simp
    have "int (length vs) = (res + 1 - 0) * (b + 1)"
      unfolding vs_def r using v by (intro vtx_count_full) simp_all
    then show ?thesis
      using False by (simp add: nv_def algebra_simps)
  qed
  have lenf: "int (length fs) = ni"
  proof (cases reduce)
    case True
    then have r: "reduce = True" by simp
    have "int (length fs) = int (length ([] :: 16 word list)) + 6 * b * (res - 0)
        - 3 * (res * (res - 1) - 0 * (0 - 1)) - 3 * (res - 0)"
      unfolding fs_def r using True v
      by (intro face_count_reduced) simp_all
    then show ?thesis
      using True by (simp add: ni_def algebra_simps)
  next
    case False
    then have r: "reduce = False" by simp
    have "int (length fs) = int (length ([] :: 16 word list)) + 6 * b * (res - 0)"
      unfolding fs_def r using v
      by (intro face_count_full) simp_all
    then show ?thesis
      using False by (simp add: ni_def algebra_simps)
  qed
  have bound: "\<forall>e\<in>set fs. uint e < nv"
    unfolding fs_def
    using v lenv by (intro face_loop_bound) (simp_all add: vs_def)
  have nvle: "nv \<le> INT_MAX"
  proof -
    have "0 \<le> ((res + 1) * res) div 2" using v(2) by simp
    then have "nv \<le> (b + 1) * (res + 1)" by (simp add: nv_def)
    then show ?thesis using rng(3) by simp
  qed
  have nvpos: "0 < nv"
  proof (cases reduce)
    case True
    have "(res + 1) * res \<le> (res + 1) * b"
      using v(2,3) True by (intro mult_left_mono) simp_all
    then have "2 * (((res + 1) * res) div 2) \<le> (res + 1) * b"
      unfolding half_of_consecutive .
    moreover have "0 \<le> (res + 1) * b" using v(1,2) by simp
    ultimately have "((res + 1) * res) div 2 \<le> (res + 1) * b" by linarith
    moreover have "(b + 1) * (res + 1) = (res + 1) * b + (res + 1)"
      by (simp add: algebra_simps)
    ultimately show ?thesis using True v(2) by (simp add: nv_def)
  next
    case False
    have "0 < (b + 1) * (res + 1)" using v(1,2) by (intro mult_pos_pos) simp_all
    then show ?thesis using False by (simp add: nv_def)
  qed
  have nile: "ni \<le> INT_MAX"
    using rng(5,6) by (cases reduce) (simp_all add: ni_def)
  have nige: "0 \<le> ni"
    using lenf [symmetric] by simp
  obtain fs' where fs': "(if \<not> outside then swap_loop ni 0 fs else Inr fs) = Inr fs'"
      "length fs' = length fs" "set fs' = set fs"
  proof (cases outside)
    case True
    then show ?thesis using that by simp
  next
    case False
    have "\<exists>Ix'. swap_loop ni 0 fs = Inr Ix' \<and> length Ix' = length fs \<and> set Ix' = set fs"
      using lenf by (intro swap_loop_ok) simp_all
    then show ?thesis using that False by auto
  qed
  have "CreateSpherePatch nlng nlat ilat res bseg0 reduce outside
      = (case (if \<not> outside then swap_loop ni 0 fs else Inr fs) of
           Inl e \<Rightarrow> Inl e
         | Inr fs' \<Rightarrow> Inr \<lparr>nVtx = nv, nIdx = ni, Vtx = vs, Idx = fs'\<rparr>)"
    unfolding CreateSpherePatch_def Let_def nv_def ni_def vs_def fs_def b_def by (rule refl)
  then have "CreateSpherePatch nlng nlat ilat res bseg0 reduce outside
      = Inr \<lparr>nVtx = nv, nIdx = ni, Vtx = vs, Idx = fs'\<rparr>"
    by (simp only: fs'(1) sum.case)
  moreover have "nVtx \<lparr>nVtx = nv, nIdx = ni, Vtx = vs, Idx = fs'\<rparr>
        = (effective_bseg nlat ilat res bseg0 + 1) * (res + 1)
                    - (if reduce then ((res + 1) * res) div 2 else 0)"
    by (simp add: nv_def b_def)
  moreover have "nIdx \<lparr>nVtx = nv, nIdx = ni, Vtx = vs, Idx = fs'\<rparr>
        = (if reduce then res * (2 * effective_bseg nlat ilat res bseg0 - res)
                     else 2 * res * effective_bseg nlat ilat res bseg0) * 3"
    by (simp add: ni_def b_def)
  moreover have "int (length (Vtx \<lparr>nVtx = nv, nIdx = ni, Vtx = vs, Idx = fs'\<rparr>))
        = nVtx \<lparr>nVtx = nv, nIdx = ni, Vtx = vs, Idx = fs'\<rparr>"
    using lenv by simp
  moreover have "int (length (Idx \<lparr>nVtx = nv, nIdx = ni, Vtx = vs, Idx = fs'\<rparr>))
        = nIdx \<lparr>nVtx = nv, nIdx = ni, Vtx = vs, Idx = fs'\<rparr>"
    using lenf fs'(2) by simp
  moreover have "\<forall>e\<in>set (Idx \<lparr>nVtx = nv, nIdx = ni, Vtx = vs, Idx = fs'\<rparr>).
        uint e < nVtx \<lparr>nVtx = nv, nIdx = ni, Vtx = vs, Idx = fs'\<rparr>"
    using bound fs'(3) by simp
  moreover have "0 < nVtx \<lparr>nVtx = nv, nIdx = ni, Vtx = vs, Idx = fs'\<rparr>
      \<and> nVtx \<lparr>nVtx = nv, nIdx = ni, Vtx = vs, Idx = fs'\<rparr> \<le> INT_MAX
      \<and> 0 \<le> nIdx \<lparr>nVtx = nv, nIdx = ni, Vtx = vs, Idx = fs'\<rparr>
      \<and> nIdx \<lparr>nVtx = nv, nIdx = ni, Vtx = vs, Idx = fs'\<rparr> \<le> INT_MAX"
    using nvpos nvle nige nile by simp
  ultimately show ?thesis
    by blast
qed

theorem CreateSpherePatch_mesh_witness:
  "valid_patch 8 0 12 15 False
   \<and> (\<exists>m. CreateSpherePatch 32 8 0 12 15 False True = Inr m
          \<and> nVtx m = 208 \<and> nIdx m = 1080
          \<and> int (length (Vtx m)) = 208 \<and> int (length (Idx m)) = 1080
          \<and> (\<forall>e\<in>set (Idx m). uint e < 208))
   \<and> valid_patch 8 7 12 (- 1) True
   \<and> (\<exists>m. CreateSpherePatch 6 8 7 12 (- 1) True False = Inr m
          \<and> nVtx m = 91 \<and> nIdx m = 432
          \<and> int (length (Vtx m)) = 91 \<and> int (length (Idx m)) = 432
          \<and> (\<forall>e\<in>set (Idx m). uint e < 91))"
proof -
  have v1: "valid_patch 8 0 12 15 False"
    by (simp add: valid_patch_def effective_bseg_def INT_MAX_def)
  have v2: "valid_patch 8 7 12 (- 1) True"
    by (simp add: valid_patch_def effective_bseg_def INT_MAX_def)
  have e1: "effective_bseg 8 0 12 15 = 15"
    by (simp add: effective_bseg_def)
  have e2: "effective_bseg 8 7 12 (- 1) = 12"
    by (simp add: effective_bseg_def)
  have "\<exists>m. CreateSpherePatch 32 8 0 12 15 False True = Inr m
          \<and> nVtx m = 208 \<and> nIdx m = 1080
          \<and> int (length (Vtx m)) = 208 \<and> int (length (Idx m)) = 1080
          \<and> (\<forall>e\<in>set (Idx m). uint e < 208)"
    using CreateSpherePatch_mesh [OF v1, of 32 True] unfolding e1 by auto
  moreover have "\<exists>m. CreateSpherePatch 6 8 7 12 (- 1) True False = Inr m
          \<and> nVtx m = 91 \<and> nIdx m = 432
          \<and> int (length (Vtx m)) = 91 \<and> int (length (Idx m)) = 432
          \<and> (\<forall>e\<in>set (Idx m). uint e < 91)"
    using CreateSpherePatch_mesh [OF v2, of 6 False] unfolding e2 by auto
  ultimately show ?thesis
    using v1 v2 by blast
qed

subsection \<open>Unresolved indices and the not-loaded bit\<close>
























lemma no_index_published: "\<not> is_index (tex d) \<Longrightarrow> published d"
  by (simp add: published_def)



end
